theory Spec2Isabelle
  imports Complex_Main
begin

section \<open>The box arithmetic surface consumed by the load balancer\<close>

text \<open>
  Modelled from the spec: \<open>hier::BoxId\<close> is declared outside the headers at hand. The
  data model describes it as "a global box id composed of owner rank and local id".
\<close>

record BoxId =
  owner_rank :: int
  local_id :: int

text \<open>
  Modelled from the spec: \<open>BoxId::operator<\<close>, outside the headers at hand; owner rank
  first, local id second.
\<close>

definition BoxId_less :: "BoxId \<Rightarrow> BoxId \<Rightarrow> bool" where
  "BoxId_less a b \<longleftrightarrow>
     owner_rank a < owner_rank b \<or> (owner_rank a = owner_rank b \<and> local_id a < local_id b)"

text \<open>
  Modelled from the spec: \<open>hier::Box\<close> is declared outside the headers at hand. The data
  model describes it as "an axis-aligned integer rectangle in d-dimensional index space,
  carrying: lower/upper corners, a block id, a global box id". The corners are inclusive
  cell indices, one entry per axis.
\<close>

record Box =
  lower :: "int list"
  upper :: "int list"
  block_id :: int
  box_id :: BoxId

text \<open>
  Modelled from the spec: the accessors \<open>Box::getBoxId()\<close> and \<open>Box::getDim()\<close> of
  the box library.
\<close>

definition getBoxId :: "Box \<Rightarrow> BoxId" where
  "getBoxId b = box_id b"

definition getDim :: "Box \<Rightarrow> nat" where
  "getDim b = length (lower b)"

text \<open>A box whose two corners list the same number of axes.\<close>

definition wf_box :: "Box \<Rightarrow> bool" where
  "wf_box b \<longleftrightarrow> length (upper b) = length (lower b)"

text \<open>
  Modelled from the spec: \<open>Box::numberCells(d)\<close>, \<open>Box::empty()\<close> and \<open>Box::size()\<close>
  ("size/cell-count" of the box library). A box with an upper index below the lower index
  on some axis is empty and has no cells.
\<close>

definition numberCells :: "Box \<Rightarrow> nat \<Rightarrow> int" where
  "numberCells b d = upper b ! d - lower b ! d + 1"

definition empty_box :: "Box \<Rightarrow> bool" where
  "empty_box b \<longleftrightarrow> list_ex (\<lambda>(l, u). u < l) (zip (lower b) (upper b))"

definition size_box :: "Box \<Rightarrow> nat" where
  "size_box b =
     (if empty_box b then 0
      else prod_list (map (\<lambda>(l, u). nat (u - l + 1)) (zip (lower b) (upper b))))"

text \<open>
  Modelled from the spec: \<open>Box::operator*\<close>, the "intersection" of the box library. The
  result is taken axis by axis and keeps the block and the id of the left operand (the
  claims here only read its extent).
\<close>

definition box_intersect :: "Box \<Rightarrow> Box \<Rightarrow> Box" where
  "box_intersect a b =
     a\<lparr>lower := map2 max (lower a) (lower b), upper := map2 min (upper a) (upper b)\<rparr>"

text \<open>The cells of a box: the integer points between its corners, axis by axis.\<close>

definition cells :: "Box \<Rightarrow> int list set" where
  "cells b = {p. list_all2 (\<lambda>x (l, u). l \<le> x \<and> x \<le> u) p (zip (lower b) (upper b))}"


text \<open>The integer points whose coordinates lie in the given index ranges, axis by axis.\<close>

definition in_range :: "int \<Rightarrow> int \<times> int \<Rightarrow> bool" where
  "in_range x r \<longleftrightarrow> fst r \<le> x \<and> x \<le> snd r"

definition points :: "(int \<times> int) list \<Rightarrow> int list set" where
  "points rs = {p. list_all2 in_range p rs}"


text \<open>
  A list of boxes tiles a box: every cell of the box lies in exactly one box of the list,
  and no box of the list has a cell outside the box.
\<close>

definition tiles :: "Box list \<Rightarrow> Box \<Rightarrow> bool" where
  "tiles bs box \<longleftrightarrow>
     (\<forall>p \<in> cells box. \<exists>!i. i < length bs \<and> p \<in> cells (bs ! i)) \<and>
     (\<forall>i < length bs. cells (bs ! i) \<subseteq> cells box)"

text \<open>
  Modelled from the spec: \<open>Box::contains(const Box&)\<close> of the box library, corner by
  corner.
\<close>

definition contains_box :: "Box \<Rightarrow> Box \<Rightarrow> bool" where
  "contains_box a b \<longleftrightarrow>
     list_all2 (\<le>) (lower a) (lower b) \<and> list_all2 (\<le>) (upper b) (upper a)"

text \<open>
  The two slabs a plane cuts a box into: the cells below index \<open>v\<close> on axis \<open>d\<close>, and the
  cells from \<open>v\<close> up.
\<close>

definition slice_below :: "Box \<Rightarrow> nat \<Rightarrow> int \<Rightarrow> Box" where
  "slice_below b d v = b\<lparr>upper := (upper b)[d := v - 1]\<rparr>"

definition slice_from :: "Box \<Rightarrow> nat \<Rightarrow> int \<Rightarrow> Box" where
  "slice_from b d v = b\<lparr>lower := (lower b)[d := v]\<rparr>"


section \<open>Boxes in transit\<close>

text \<open>\<open>LoadType\<close> is \<open>double\<close> in the source; loads are cell counts, modelled as reals.\<close>

type_synonym LoadType = real

record BoxInTransit =
  d_box :: Box
  d_orig_box :: Box
  d_boxload :: LoadType

definition getBox :: "BoxInTransit \<Rightarrow> Box" where
  "getBox a = d_box a"

text \<open>The comparison functor \<open>BoxInTransitMoreLoad::operator()\<close>.\<close>

definition BoxInTransitMoreLoad :: "BoxInTransit \<Rightarrow> BoxInTransit \<Rightarrow> bool" where
  "BoxInTransitMoreLoad a b =
     (if size_box (getBox a) \<noteq> size_box (getBox b) then d_boxload a > d_boxload b
      else BoxId_less (getBoxId (d_box a)) (getBoxId (d_box b)))"

text \<open>Two records are equivalent for the set when neither goes before the other.\<close>

definition equiv_transit :: "BoxInTransit \<Rightarrow> BoxInTransit \<Rightarrow> bool" where
  "equiv_transit a b \<longleftrightarrow> \<not> BoxInTransitMoreLoad a b \<and> \<not> BoxInTransitMoreLoad b a"

text \<open>The uniform load model: the load of a record is the cell count of its box.\<close>

definition uniform_load :: "BoxInTransit \<Rightarrow> bool" where
  "uniform_load a \<longleftrightarrow> d_boxload a = real (size_box (d_box a))"


section \<open>The load model\<close>

text \<open>\<open>computeLoad(const hier::Box&)\<close>: the load of a box is \<open>double(box.size())\<close>.\<close>

definition computeLoad :: "Box \<Rightarrow> LoadType" where
  "computeLoad box = real (size_box box)"

text \<open>
  \<open>computeLoad(const hier::Box&, const hier::Box&)\<close>: the load of a box restricted to
  where it intersects another, \<open>double((box * restriction).size())\<close>.
\<close>

definition computeLoad_restricted :: "Box \<Rightarrow> Box \<Rightarrow> LoadType" where
  "computeLoad_restricted box restriction = real (size_box (box_intersect box restriction))"


section \<open>Bursting a box\<close>

text \<open>
  \<open>burstBox\<close> is declared in both headers and defined in neither. The design says:
  "given bursty \<open>\<supseteq>\<close> solid, produce the minimal rectilinear cover of bursty
  \<open>\<setminus>\<close> solid as up to 2d axis-aligned boxes by slicing along each face of solid in
  a fixed canonical order".
\<close>

text \<open>
  Modelled from the spec: the step of \<open>burstBox\<close> at one face of \<open>solid\<close>, which the
  design calls slicing along the face. The slab of what is left of \<open>bursty\<close> beyond the
  face is cut off and joins the pieces; a face that lies on the face of what is left cuts
  nothing off.
\<close>

fun burst_face :: "Box \<Rightarrow> Box \<times> Box list \<Rightarrow> nat \<times> bool \<Rightarrow> Box \<times> Box list" where
  "burst_face solid (cutme, boxes) (d, upper_face) =
     (if upper_face then
        (if upper solid ! d < upper cutme ! d
         then (slice_below cutme d (upper solid ! d + 1),
               boxes @ [slice_from cutme d (upper solid ! d + 1)])
         else (cutme, boxes))
      else
        (if lower cutme ! d < lower solid ! d
         then (slice_from cutme d (lower solid ! d),
               boxes @ [slice_below cutme d (lower solid ! d)])
         else (cutme, boxes)))"

text \<open>
  Modelled from the spec: the "fixed canonical order" of the faces, taken here axis by
  axis, the lower face of \<open>solid\<close> (\<open>False\<close>) before its upper face (\<open>True\<close>).
\<close>

definition solid_faces :: "nat \<Rightarrow> (nat \<times> bool) list" where
  "solid_faces n = concat (map (\<lambda>d. [(d, False), (d, True)]) [0..<n])"

text \<open>
  Modelled from the spec: \<open>burstBox(boxes, bursty, solid)\<close>, declared and not defined in
  the headers; the result is the output \<open>boxes\<close>.
\<close>

definition burstBox :: "Box \<Rightarrow> Box \<Rightarrow> Box list" where
  "burstBox bursty solid =
     snd (foldl (burst_face solid) (bursty, []) (solid_faces (getDim bursty)))"


text \<open>
  The boxes of a list are pairwise disjoint and cover a set of cells; and what holds
  between the steps of a burst: what is left of \<open>bursty\<close> still contains \<open>solid\<close>, and
  together with the pieces cut off so far it makes up \<open>bursty\<close>.
\<close>

definition partitions :: "Box list \<Rightarrow> int list set \<Rightarrow> bool" where
  "partitions bs S \<longleftrightarrow>
     (\<Union>b \<in> set bs. cells b) = S \<and> sorted_wrt (\<lambda>a b. cells a \<inter> cells b = {}) bs"

definition burst_inv :: "Box \<Rightarrow> Box \<Rightarrow> Box \<times> Box list \<Rightarrow> bool" where
  "burst_inv bursty solid st \<longleftrightarrow>
     wf_box (fst st) \<and> getDim (fst st) = getDim bursty \<and> contains_box (fst st) solid \<and>
     partitions (fst st # snd st) (cells bursty)"


section \<open>Breaking a load off a box\<close>

text \<open>
  The two penalty functions the headers define: \<open>computeBalancePenalty\<close> and
  \<open>combinedBreakingPenalty\<close>, with the three weights of the balancer.
\<close>

record penalty_weights =
  d_balance_penalty_wt :: real
  d_surface_penalty_wt :: real
  d_slender_penalty_wt :: real

definition computeBalancePenalty :: "real \<Rightarrow> real" where
  "computeBalancePenalty imbalance = \<bar>imbalance\<bar>"

definition combinedBreakingPenalty :: "penalty_weights \<Rightarrow> real \<Rightarrow> real \<Rightarrow> real \<Rightarrow> real" where
  "combinedBreakingPenalty w balance_penalty surface_penalty slender_penalty =
     d_balance_penalty_wt w * balance_penalty * balance_penalty
     + d_surface_penalty_wt w * surface_penalty * surface_penalty
     + d_slender_penalty_wt w * slender_penalty * slender_penalty"

text \<open>
  \<open>breakOffLoad\<close>, \<open>breakOffLoad_planar\<close> and \<open>breakOffLoad_cubic\<close> are declared in
  the headers and defined in none of the files at hand. The design gives the steps: compute the bad cut planes per axis; enumerate the
  planar cuts ("for each axis, for each permissible cut plane, produce a two-piece split;
  pick the slab with load nearer ideal") and the corner chops ("for each corner of the
  box, carve off an axis-aligned sub-box anchored at that corner whose volume approximates
  ideal", the leftover "obtained by bursting"); rate each candidate by the composite
  penalty; "accept the lowest-penalty candidate whose brk_load is in [low, high]; if none
  qualifies, return success = false"; on ties "prefer planar over cubic; prefer lower-axis
  index; prefer cuts nearer the box's geometric center". The precut weight of the design
  rates the state before any cut, not a candidate, and has no part in the choice among
  the cuts.

\<close>

text \<open>
  Modelled from the spec: what the breaker consults and the design leaves open, as
  parameters: the weights, which cut planes of a box are bad (step 1 of the design), the
  surface and slenderness penalties (\<open>computeSurfacePenalty\<close> and
  \<open>computeSlenderPenalty\<close>, declared and not defined), and the edge lengths of the
  sub-box carved at a corner for an ideal load.
\<close>

record breaker =
  weights :: penalty_weights
  bad_cut :: "Box \<Rightarrow> nat \<Rightarrow> int \<Rightarrow> bool"
  computeSurfacePenalty :: "Box list \<Rightarrow> Box list \<Rightarrow> real"
  computeSlenderPenalty :: "Box list \<Rightarrow> Box list \<Rightarrow> real"
  chop_size :: "Box \<Rightarrow> bool list \<Rightarrow> LoadType \<Rightarrow> int list"

text \<open>A candidate break: the boxes broken off, the leftover boxes, the load broken off.\<close>

type_synonym candidate = "Box list \<times> Box list \<times> LoadType"

text \<open>
  Modelled from the spec: the composite penalty of a candidate (step 3 of the design), the
  balance being the distance of the load broken off from the ideal load.
\<close>

definition candidate_penalty :: "breaker \<Rightarrow> LoadType \<Rightarrow> candidate \<Rightarrow> real" where
  "candidate_penalty p ideal_load c =
     (case c of (breakoff, leftover, brk_load) \<Rightarrow>
        combinedBreakingPenalty (weights p)
          (computeBalancePenalty (brk_load - ideal_load))
          (computeSurfacePenalty p breakoff leftover)
          (computeSlenderPenalty p breakoff leftover))"

text \<open>
  Modelled from the spec: the planes that cut a box on an axis, the ones nearer the centre
  of the box first ("prefer cuts nearer the box's geometric center"); plane \<open>c\<close>
  separates the cells below index \<open>c\<close> from the cells from \<open>c\<close> up.
\<close>

definition cut_planes :: "Box \<Rightarrow> nat \<Rightarrow> int list" where
  "cut_planes box d =
     sort_key (\<lambda>c. \<bar>2 * c - (lower box ! d + upper box ! d + 1)\<bar>)
       [lower box ! d + 1 .. upper box ! d]"

text \<open>
  Modelled from the spec: a planar cut, "a two-piece split; pick the slab with load nearer
  ideal".
\<close>

definition planar_cut :: "Box \<Rightarrow> LoadType \<Rightarrow> nat \<Rightarrow> int \<Rightarrow> candidate" where
  "planar_cut box ideal_load d c =
     (let lo = slice_below box d c; hi = slice_from box d c
      in if \<bar>computeLoad lo - ideal_load\<bar> \<le> \<bar>computeLoad hi - ideal_load\<bar>
         then ([lo], [hi], computeLoad lo)
         else ([hi], [lo], computeLoad hi))"

text \<open>
  Modelled from the spec: the planar candidates, "for each axis, for each permissible cut
  plane", the lower axes first.
\<close>

definition planar_candidates :: "breaker \<Rightarrow> Box \<Rightarrow> LoadType \<Rightarrow> candidate list" where
  "planar_candidates p box ideal_load =
     concat (map (\<lambda>d. map (planar_cut box ideal_load d)
                          (filter (\<lambda>c. \<not> bad_cut p box d c) (cut_planes box d)))
                 [0..<getDim box])"

text \<open>
  Modelled from the spec: the "axis-aligned sub-box anchored at that corner", with edge
  lengths \<open>e\<close>; the corner names, axis by axis, the upper (\<open>True\<close>) or the lower face.
\<close>

definition corner_box :: "Box \<Rightarrow> bool list \<Rightarrow> int list \<Rightarrow> Box" where
  "corner_box box corner e =
     box\<lparr>lower := map (\<lambda>i. if corner ! i then upper box ! i - e ! i + 1 else lower box ! i)
                     [0..<getDim box],
         upper := map (\<lambda>i. if corner ! i then upper box ! i else lower box ! i + e ! i - 1)
                     [0..<getDim box]\<rparr>"

text \<open>
  Modelled from the spec: a chop is a candidate when the sub-box fits in the box and no
  plane it cuts along is bad.
\<close>

definition valid_chop :: "breaker \<Rightarrow> Box \<Rightarrow> bool list \<Rightarrow> int list \<Rightarrow> bool" where
  "valid_chop p box corner e \<longleftrightarrow>
     length corner = getDim box \<and> length e = getDim box \<and>
     list_all (\<lambda>i. 1 \<le> e ! i \<and> e ! i \<le> numberCells box i \<and>
                   (e ! i < numberCells box i \<longrightarrow>
                      \<not> bad_cut p box i
                          (if corner ! i then upper box ! i - e ! i + 1 else lower box ! i + e ! i)))
       [0..<getDim box]"

text \<open>
  Modelled from the spec: the corner chop, "a single corner piece (breakoff) and up to d
  leftover pieces obtained by bursting".
\<close>

definition corner_chop :: "breaker \<Rightarrow> Box \<Rightarrow> LoadType \<Rightarrow> bool list \<Rightarrow> candidate list" where
  "corner_chop p box ideal_load corner =
     (let e = chop_size p box corner ideal_load
      in if valid_chop p box corner e
         then [([corner_box box corner e], burstBox box (corner_box box corner e),
                computeLoad (corner_box box corner e))]
         else [])"

text \<open>Modelled from the spec: the cubic candidates, "for each corner of the box".\<close>

definition cubic_candidates :: "breaker \<Rightarrow> Box \<Rightarrow> LoadType \<Rightarrow> candidate list" where
  "cubic_candidates p box ideal_load =
     concat (map (corner_chop p box ideal_load) (List.n_lists (getDim box) [False, True]))"

text \<open>
  Modelled from the spec: the first of the candidates of lowest penalty, and the band
  \<open>[low, high]\<close> a candidate's load must lie in (step 4 of the design).
\<close>

fun lowest_penalty :: "(candidate \<Rightarrow> real) \<Rightarrow> candidate list \<Rightarrow> candidate option" where
  "lowest_penalty pen [] = None"
| "lowest_penalty pen (c # cs) =
     (case lowest_penalty pen cs of
        None \<Rightarrow> Some c
      | Some b \<Rightarrow> if pen b < pen c then Some b else Some c)"

definition in_band :: "LoadType \<Rightarrow> LoadType \<Rightarrow> candidate \<Rightarrow> bool" where
  "in_band low_load high_load c \<longleftrightarrow>
     (case c of (breakoff, leftover, brk_load) \<Rightarrow> low_load \<le> brk_load \<and> brk_load \<le> high_load)"

text \<open>
  Modelled from the spec: \<open>breakOffLoad_planar\<close> and \<open>breakOffLoad_cubic\<close>, declared
  and not defined in the headers: the best candidate of each kind whose load is in the
  band, \<open>None\<close> for the return value false.
\<close>

definition breakOffLoad_planar ::
  "breaker \<Rightarrow> Box \<Rightarrow> LoadType \<Rightarrow> LoadType \<Rightarrow> LoadType \<Rightarrow> candidate option" where
  "breakOffLoad_planar p box ideal_load low_load high_load =
     lowest_penalty (candidate_penalty p ideal_load)
       (filter (in_band low_load high_load) (planar_candidates p box ideal_load))"

definition breakOffLoad_cubic ::
  "breaker \<Rightarrow> Box \<Rightarrow> LoadType \<Rightarrow> LoadType \<Rightarrow> LoadType \<Rightarrow> candidate option" where
  "breakOffLoad_cubic p box ideal_load low_load high_load =
     lowest_penalty (candidate_penalty p ideal_load)
       (filter (in_band low_load high_load) (cubic_candidates p box ideal_load))"

text \<open>
  Modelled from the spec: \<open>breakOffLoad\<close>, declared and not defined in the headers.
  \<open>None\<close> is the return value false; \<open>Some (breakoff, leftover, brk_load)\<close> is the
  return value true with the three outputs. Of a planar and a cubic candidate of the same
  penalty the planar one is taken.
\<close>

definition breakOffLoad ::
  "breaker \<Rightarrow> Box \<Rightarrow> LoadType \<Rightarrow> LoadType \<Rightarrow> LoadType \<Rightarrow> candidate option" where
  "breakOffLoad p box ideal_load low_load high_load =
     (case (breakOffLoad_planar p box ideal_load low_load high_load,
            breakOffLoad_cubic p box ideal_load low_load high_load) of
        (None, None) \<Rightarrow> None
      | (Some planar, None) \<Rightarrow> Some planar
      | (None, Some cubic) \<Rightarrow> Some cubic
      | (Some planar, Some cubic) \<Rightarrow>
          if candidate_penalty p ideal_load cubic < candidate_penalty p ideal_load planar
          then Some cubic else Some planar)"


section \<open>The ordered set under TransitSet\<close>

text \<open>
  \<open>std::set<Key, Compare>\<close> is the C++ library's; it is modelled as the list of its
  elements in iteration order. Looking a key up walks past the elements that go before the
  key; the element met there is equivalent to the key when the key does not go before it
  either. An iterator is the index of its element, \<open>end()\<close> the length of the list.
\<close>

text \<open>
  \<open>lower_bound(k)\<close>: the first element that does not go before the key;
  \<open>upper_bound(k)\<close>: the first element that the key goes before.
\<close>

definition set_lower_bound :: "('a \<Rightarrow> 'a \<Rightarrow> bool) \<Rightarrow> 'a list \<Rightarrow> 'a \<Rightarrow> nat" where
  "set_lower_bound cmp xs k = length (takeWhile (\<lambda>e. cmp e k) xs)"

definition set_upper_bound :: "('a \<Rightarrow> 'a \<Rightarrow> bool) \<Rightarrow> 'a list \<Rightarrow> 'a \<Rightarrow> nat" where
  "set_upper_bound cmp xs k = length (takeWhile (\<lambda>e. \<not> cmp k e) xs)"

text \<open>\<open>insert(const value_type&)\<close>: the new contents and whether the value went in.\<close>

fun set_insert :: "('a \<Rightarrow> 'a \<Rightarrow> bool) \<Rightarrow> 'a list \<Rightarrow> 'a \<Rightarrow> 'a list \<times> bool" where
  "set_insert cmp [] x = ([x], True)"
| "set_insert cmp (e # es) x =
     (if cmp e x then (let r = set_insert cmp es x in (e # fst r, snd r))
      else if cmp x e then (x # e # es, True)
      else (e # es, False))"

text \<open>\<open>insert(first, last)\<close>: the values of the range go in one by one.\<close>

fun set_insert_range :: "('a \<Rightarrow> 'a \<Rightarrow> bool) \<Rightarrow> 'a list \<Rightarrow> 'a list \<Rightarrow> 'a list" where
  "set_insert_range cmp xs [] = xs"
| "set_insert_range cmp xs (y # ys) = set_insert_range cmp (fst (set_insert cmp xs y)) ys"

text \<open>
  \<open>erase(const key_type&)\<close>: the elements from \<open>lower_bound(k)\<close> up to
  \<open>upper_bound(k)\<close>, the \<open>equal_range\<close> of the key, are erased; the result is the new
  contents and the number of elements erased.
\<close>

definition set_erase_key :: "('a \<Rightarrow> 'a \<Rightarrow> bool) \<Rightarrow> 'a list \<Rightarrow> 'a \<Rightarrow> 'a list \<times> nat" where
  "set_erase_key cmp xs k =
     (let first = set_lower_bound cmp xs k; last = set_upper_bound cmp xs k
      in if first < last then (take first xs @ drop last xs, last - first) else (xs, 0))"

text \<open>
  \<open>erase(iterator)\<close>. The C++ library leaves erasing \<open>end()\<close> or a foreign iterator
  undefined; the statements below use it at positions inside the list only.
\<close>

definition set_erase_pos :: "'a list \<Rightarrow> nat \<Rightarrow> 'a list" where
  "set_erase_pos xs pos = take pos xs @ drop (Suc pos) xs"


section \<open>TransitSet\<close>

text \<open>
  \<open>TBOX_ERROR\<close> aborts the run with a message. Erasing through an iterator that is not
  inside the set is undefined in C++; a run of operations stops there.
\<close>

datatype error = TBOX_ERROR string | Invalid_Iterator

record TransitSet =
  d_set :: "BoxInTransit list"
  d_sumload :: LoadType

text \<open>The default constructor.\<close>

definition TransitSet_empty :: TransitSet where
  "TransitSet_empty = \<lparr>d_set = [], d_sumload = 0\<rparr>"

text \<open>The range constructor: the set is built from the range, then its loads are summed.\<close>

definition TransitSet_from_range :: "BoxInTransit list \<Rightarrow> TransitSet" where
  "TransitSet_from_range ys =
     (let s = set_insert_range BoxInTransitMoreLoad [] ys
      in \<lparr>d_set = s, d_sumload = foldl (\<lambda>sumload bi. sumload + d_boxload bi) 0 s\<rparr>)"

definition size_ts :: "TransitSet \<Rightarrow> nat" where
  "size_ts s = length (d_set s)"

definition empty_ts :: "TransitSet \<Rightarrow> bool" where
  "empty_ts s \<longleftrightarrow> d_set s = []"

definition getSumLoad :: "TransitSet \<Rightarrow> LoadType" where
  "getSumLoad s = d_sumload s"

text \<open>
  \<open>insert(const value_type &x)\<close>: returns the updated set and the pair of the iterator
  to the element met and whether \<open>x\<close> went in.
\<close>

definition insert_ts :: "TransitSet \<Rightarrow> BoxInTransit \<Rightarrow> TransitSet \<times> (nat \<times> bool)" where
  "insert_ts s x =
     (case set_insert BoxInTransitMoreLoad (d_set s) x of
        (r, second) \<Rightarrow>
          (\<lparr>d_set = r,
            d_sumload = (if second then d_sumload s + d_boxload x else d_sumload s)\<rparr>,
           (set_lower_bound BoxInTransitMoreLoad (d_set s) x, second)))"

text \<open>
  \<open>insert(InputIterator first, InputIterator last)\<close>: every load of the range is added
  and counted; the call ends in \<open>TBOX_ERROR\<close> when the count differs from the size.
\<close>

definition insert_range_ts :: "TransitSet \<Rightarrow> BoxInTransit list \<Rightarrow> error + TransitSet" where
  "insert_range_ts s ys =
     (let tmp_size = size_ts s;
          r = set_insert_range BoxInTransitMoreLoad (d_set s) ys;
          (sumload, tmp_size) =
             foldl (\<lambda>(sumload, tmp_size) i. (sumload + d_boxload i, tmp_size + 1))
               (d_sumload s, tmp_size) ys;
          s' = \<lparr>d_set = r, d_sumload = sumload\<rparr>
      in if tmp_size \<noteq> size_ts s'
         then Inl (TBOX_ERROR ''TransitSet's range insert currently can't weed out duplicates.'')
         else Inr s')"

text \<open>\<open>erase(iterator pos)\<close>.\<close>

definition erase_pos_ts :: "TransitSet \<Rightarrow> nat \<Rightarrow> TransitSet" where
  "erase_pos_ts s pos =
     \<lparr>d_set = set_erase_pos (d_set s) pos,
      d_sumload = d_sumload s - d_boxload (d_set s ! pos)\<rparr>"

text \<open>\<open>erase(const key_type &k)\<close>: returns the updated set and the number erased.\<close>

definition erase_key_ts :: "TransitSet \<Rightarrow> BoxInTransit \<Rightarrow> TransitSet \<times> nat" where
  "erase_key_ts s k =
     (case set_erase_key BoxInTransitMoreLoad (d_set s) k of
        (r, num_erased) \<Rightarrow>
          (\<lparr>d_set = r,
            d_sumload = (if num_erased \<noteq> 0 then d_sumload s - d_boxload k else d_sumload s)\<rparr>,
           num_erased))"

definition clear_ts :: "TransitSet \<Rightarrow> TransitSet" where
  "clear_ts s = \<lparr>d_set = [], d_sumload = 0\<rparr>"

text \<open>\<open>swap(TransitSet &other)\<close>: returns the new \<open>*this\<close> and the new \<open>other\<close>.\<close>

definition swap_ts :: "TransitSet \<Rightarrow> TransitSet \<Rightarrow> TransitSet \<times> TransitSet" where
  "swap_ts s other =
     (let tl = d_sumload s
      in (\<lparr>d_set = d_set other, d_sumload = d_sumload other\<rparr>,
          \<lparr>d_set = d_set s, d_sumload = tl\<rparr>))"

text \<open>\<open>computeLoad(const TransitSet&)\<close>: the loop adding up the loads of the elements.\<close>

definition computeLoad_ts :: "TransitSet \<Rightarrow> LoadType" where
  "computeLoad_ts transit_set = foldl (\<lambda>load bi. load + d_boxload bi) 0 (d_set transit_set)"


section \<open>SubtreeData\<close>

record SubtreeData =
  d_subtree_rank :: int
  d_num_procs :: int
  d_subtree_load_current :: LoadType
  d_subtree_load_ideal :: LoadType
  d_subtree_load_upperlimit :: LoadType
  d_eff_num_procs :: int
  d_eff_load_current :: LoadType
  d_eff_load_ideal :: LoadType
  d_eff_load_upperlimit :: LoadType
  d_work_traded :: TransitSet
  d_wants_work_from_parent :: bool

definition surplus :: "SubtreeData \<Rightarrow> LoadType" where
  "surplus t = d_subtree_load_current t - d_subtree_load_ideal t"

definition deficit :: "SubtreeData \<Rightarrow> LoadType" where
  "deficit t = d_subtree_load_ideal t - d_subtree_load_current t"

definition effSurplus :: "SubtreeData \<Rightarrow> LoadType" where
  "effSurplus t = d_eff_load_current t - d_eff_load_ideal t"

definition effDeficit :: "SubtreeData \<Rightarrow> LoadType" where
  "effDeficit t = d_eff_load_ideal t - d_eff_load_current t"

definition excess :: "SubtreeData \<Rightarrow> LoadType" where
  "excess t = d_subtree_load_current t - d_subtree_load_upperlimit t"

definition margin :: "SubtreeData \<Rightarrow> LoadType" where
  "margin t = d_subtree_load_upperlimit t - d_subtree_load_current t"

definition effExcess :: "SubtreeData \<Rightarrow> LoadType" where
  "effExcess t = d_eff_load_current t - d_eff_load_upperlimit t"

definition effMargin :: "SubtreeData \<Rightarrow> LoadType" where
  "effMargin t = d_eff_load_upperlimit t - d_eff_load_current t"


text \<open>The cached sum of a set is the sum of the loads of its elements.\<close>

definition sum_ok :: "TransitSet \<Rightarrow> bool" where
  "sum_ok s \<longleftrightarrow> getSumLoad s = computeLoad_ts s"


section \<open>Sequences of TransitSet operations\<close>

text \<open>
  The mutating operations of the class. They act on one set; \<open>Swap\<close> exchanges it with a
  second set, so that a run is over a pair of sets and reaches either of them.
\<close>

datatype ts_op =
    Insert BoxInTransit
  | InsertRange "BoxInTransit list"
  | EraseIter nat
  | EraseKey BoxInTransit
  | Clear
  | Swap

fun apply_op :: "TransitSet \<times> TransitSet \<Rightarrow> ts_op \<Rightarrow> error + TransitSet \<times> TransitSet" where
  "apply_op (s, other) (Insert x) = Inr (fst (insert_ts s x), other)"
| "apply_op (s, other) (InsertRange ys) =
     (case insert_range_ts s ys of Inl e \<Rightarrow> Inl e | Inr s' \<Rightarrow> Inr (s', other))"
| "apply_op (s, other) (EraseIter pos) =
     (if pos < size_ts s then Inr (erase_pos_ts s pos, other) else Inl Invalid_Iterator)"
| "apply_op (s, other) (EraseKey k) = Inr (fst (erase_key_ts s k), other)"
| "apply_op (s, other) Clear = Inr (clear_ts s, other)"
| "apply_op (s, other) Swap = Inr (swap_ts s other)"

fun run_ops :: "TransitSet \<times> TransitSet \<Rightarrow> ts_op list \<Rightarrow> error + TransitSet \<times> TransitSet" where
  "run_ops st [] = Inr st"
| "run_ops st (x # xs) =
     (case apply_op st x of Inl e \<Rightarrow> Inl e | Inr st' \<Rightarrow> run_ops st' xs)"

text \<open>The records an operation is called with.\<close>

fun op_records :: "ts_op \<Rightarrow> BoxInTransit set" where
  "op_records (Insert x) = {x}"
| "op_records (InsertRange ys) = set ys"
| "op_records (EraseKey k) = {k}"
| "op_records _ = {}"

text \<open>
  The elements of a set are in comparator order (so no two of them are equivalent) and
  belong to a given collection of records.
\<close>

definition ordered_in :: "BoxInTransit set \<Rightarrow> TransitSet \<Rightarrow> bool" where
  "ordered_in U s \<longleftrightarrow> sorted_wrt BoxInTransitMoreLoad (d_set s) \<and> set (d_set s) \<subseteq> U"

text \<open>
  A range collides with a set when one of its records is equivalent to an element of the
  set or to another record of the range.
\<close>

fun range_collides :: "BoxInTransit list \<Rightarrow> BoxInTransit list \<Rightarrow> bool" where
  "range_collides xs [] = False"
| "range_collides xs (y # ys) =
     (list_ex (\<lambda>e. equiv_transit e y) xs \<or> list_ex (\<lambda>z. equiv_transit y z) ys \<or>
      range_collides xs ys)"


section \<open>Example values\<close>

definition make_box :: "int list \<Rightarrow> int list \<Rightarrow> int \<Rightarrow> int \<Rightarrow> Box" where
  "make_box lo hi rank lid =
     \<lparr>lower = lo, upper = hi, block_id = 0, box_id = \<lparr>owner_rank = rank, local_id = lid\<rparr>\<rparr>"

definition make_transit :: "Box \<Rightarrow> LoadType \<Rightarrow> BoxInTransit" where
  "make_transit b l = \<lparr>d_box = b, d_orig_box = b, d_boxload = l\<rparr>"

text \<open>Three records under the uniform load model: 6, 4 and 4 cells.\<close>

definition ex_u1 :: BoxInTransit where
  "ex_u1 = make_transit (make_box [0, 0] [2, 1] 0 1) 6"

definition ex_u2 :: BoxInTransit where
  "ex_u2 = make_transit (make_box [3, 0] [4, 1] 0 2) 4"

definition ex_u3 :: BoxInTransit where
  "ex_u3 = make_transit (make_box [5, 0] [6, 1] 1 0) 4"

text \<open>A box of 3 by 2 cells and a restriction that shares 2 by 2 cells with it.\<close>

definition ex_box :: Box where
  "ex_box = make_box [0, 0] [2, 1] 0 1"

definition ex_restriction :: Box where
  "ex_restriction = make_box [1, 0] [4, 1] 0 2"

text \<open>A box of 5 by 4 cells and a box of 2 by 3 cells inside it.\<close>

definition ex_bursty :: Box where
  "ex_bursty = make_box [0, 0] [4, 3] 0 7"

definition ex_solid :: Box where
  "ex_solid = make_box [1, 1] [2, 3] 0 8"

text \<open>
  A breaker with unit weights for which the plane at index 4 on axis 0 is bad, that knows
  no surface or slenderness penalty and carves sub-boxes of 3 by 2 cells; and a box of 8
  by 4 cells.
\<close>

definition ex_breaker :: breaker where
  "ex_breaker =
     \<lparr>weights = \<lparr>d_balance_penalty_wt = 1, d_surface_penalty_wt = 1, d_slender_penalty_wt = 1\<rparr>,
      bad_cut = (\<lambda>box d c. d = 0 \<and> c = 4),
      computeSurfacePenalty = (\<lambda>a b. 0),
      computeSlenderPenalty = (\<lambda>a b. 0),
      chop_size = (\<lambda>box corner ideal_load. [3, 2])\<rparr>"

definition ex_wide :: Box where
  "ex_wide = make_box [0, 0] [7, 3] 0 1"

text \<open>
  Records whose loads are not their cell counts: two records of two cells each, and a key
  for the first of them (same box, same id) that carries another load; then two records
  of one cell and load 1 each, and a key of two cells and load 1, which neither goes
  before nor after either of them.
\<close>

definition ex_a :: BoxInTransit where
  "ex_a = make_transit (make_box [0] [1] 0 2) 5"

definition ex_b :: BoxInTransit where
  "ex_b = make_transit (make_box [2] [3] 0 1) 3"

definition ex_k :: BoxInTransit where
  "ex_k = make_transit (make_box [0] [1] 0 2) 3"

definition ex_e1 :: BoxInTransit where
  "ex_e1 = make_transit (make_box [0] [0] 0 1) 1"

definition ex_e2 :: BoxInTransit where
  "ex_e2 = make_transit (make_box [1] [1] 0 2) 1"

definition ex_k3 :: BoxInTransit where
  "ex_k3 = make_transit (make_box [2] [3] 0 3) 1"


section \<open>Theorems\<close>

lemma BoxId_less_irrefl: "\<not> BoxId_less a a"
  by (simp add: BoxId_less_def)

lemma BoxId_less_trans: "BoxId_less a b \<Longrightarrow> BoxId_less b c \<Longrightarrow> BoxId_less a c"
  by (auto simp: BoxId_less_def)

lemma BoxId_less_total: "\<not> BoxId_less a b \<Longrightarrow> \<not> BoxId_less b a \<Longrightarrow> (a::BoxId) = b"
  by (cases a, cases b) (auto simp: BoxId_less_def)

subsection \<open>SubtreeData: derived quantities\<close>

text \<open>
  C8. For every SubtreeData value, surplus is current minus ideal, deficit is ideal minus
  current, excess is current minus upper limit, margin is upper limit minus current, the
  effective variants read the effective fields in the same way, and so deficit is the
  negation of surplus, margin of excess, effDeficit of effSurplus and effMargin of
  effExcess.
\<close>

theorem SubtreeData_derived_quantities:
  "surplus t = d_subtree_load_current t - d_subtree_load_ideal t \<and>
   deficit t = d_subtree_load_ideal t - d_subtree_load_current t \<and>
   excess t = d_subtree_load_current t - d_subtree_load_upperlimit t \<and>
   margin t = d_subtree_load_upperlimit t - d_subtree_load_current t \<and>
   effSurplus t = d_eff_load_current t - d_eff_load_ideal t \<and>
   effDeficit t = d_eff_load_ideal t - d_eff_load_current t \<and>
   effExcess t = d_eff_load_current t - d_eff_load_upperlimit t \<and>
   effMargin t = d_eff_load_upperlimit t - d_eff_load_current t \<and>
   deficit t = - surplus t \<and> margin t = - excess t \<and>
   effDeficit t = - effSurplus t \<and> effMargin t = - effExcess t"
  by (simp add: surplus_def deficit_def excess_def margin_def
      effSurplus_def effDeficit_def effExcess_def effMargin_def)

subsection \<open>The ordered set: insertion\<close>

lemma foldl_add_sum: "foldl (\<lambda>acc b. acc + f b) a xs = a + sum_list (map f xs)"
  for a :: real
  by (induction xs arbitrary: a) (simp_all add: algebra_simps)

lemma set_insert_not_inserted: "\<not> snd (set_insert cmp xs x) \<Longrightarrow> fst (set_insert cmp xs x) = xs"
  by (induction xs) (simp_all add: Let_def split: if_splits)

lemma set_insert_length:
  "length (fst (set_insert cmp xs x)) =
     (if snd (set_insert cmp xs x) then Suc (length xs) else length xs)"
  by (induction xs) (simp_all add: Let_def)

lemma set_insert_sum:
  "sum_list (map f (fst (set_insert cmp xs x))) =
     (if snd (set_insert cmp xs x) then sum_list (map f xs) + f x else sum_list (map f xs))"
  for f :: "'a \<Rightarrow> real"
  by (induction xs) (simp_all add: Let_def)

lemma set_insert_set:
  "set (fst (set_insert cmp xs x)) =
     (if snd (set_insert cmp xs x) then insert x (set xs) else set xs)"
  by (induction xs) (auto simp: Let_def)

text \<open>In a sorted list, a value that goes before the head goes before every element.\<close>

lemma set_insert_before:
  assumes "sorted_wrt cmp (e # es)" "transp_on (insert x (set (e # es))) cmp" "cmp x e"
  shows "\<forall>e' \<in> set es. cmp x e'"
proof
  fix e' assume e': "e' \<in> set es"
  then have "cmp e e'" using assms(1) by simp
  moreover have "x \<in> insert x (set (e # es))" "e \<in> insert x (set (e # es))"
    "e' \<in> insert x (set (e # es))" using e' by simp_all
  ultimately show "cmp x e'" using assms(2,3) by (meson transp_onD)
qed

text \<open>A value goes in exactly when no element of the set is equivalent to it.\<close>

lemma set_insert_inserted_iff:
  assumes "sorted_wrt cmp xs" "transp_on (insert x (set xs)) cmp"
  shows "snd (set_insert cmp xs x) \<longleftrightarrow> \<not> (\<exists>e \<in> set xs. \<not> cmp e x \<and> \<not> cmp x e)"
  using assms
proof (induction xs)
  case Nil
  then show ?case by simp
next
  case (Cons e es)
  have tr: "transp_on (insert x (set es)) cmp"
    using Cons.prems(2) by (rule transp_on_subset) auto
  have so: "sorted_wrt cmp es" using Cons.prems(1) by simp
  note IH = Cons.IH [OF so tr]
  show ?case
  proof (cases "cmp e x")
    case True
    then show ?thesis using IH by (simp add: Let_def)
  next
    case False
    show ?thesis
    proof (cases "cmp x e")
      case True
      with set_insert_before [OF Cons.prems True] False show ?thesis by simp
    next
      case False
      with \<open>\<not> cmp e x\<close> show ?thesis by simp
    qed
  qed
qed

lemma set_insert_sorted:
  assumes "sorted_wrt cmp xs" "transp_on (insert x (set xs)) cmp"
  shows "sorted_wrt cmp (fst (set_insert cmp xs x))"
  using assms
proof (induction xs)
  case Nil
  then show ?case by simp
next
  case (Cons e es)
  have tr: "transp_on (insert x (set es)) cmp"
    using Cons.prems(2) by (rule transp_on_subset) auto
  have so: "sorted_wrt cmp es" using Cons.prems(1) by simp
  note IH = Cons.IH [OF so tr]
  show ?case
  proof (cases "cmp e x")
    case True
    have "\<forall>y \<in> set (fst (set_insert cmp es x)). cmp e y"
      using True Cons.prems(1) by (simp add: set_insert_set)
    with True IH show ?thesis by (simp add: Let_def)
  next
    case False
    show ?thesis
    proof (cases "cmp x e")
      case True
      with set_insert_before [OF Cons.prems True] False Cons.prems(1) show ?thesis by simp
    next
      case False
      with \<open>\<not> cmp e x\<close> Cons.prems(1) show ?thesis by simp
    qed
  qed
qed

lemma set_insert_twice:
  "\<not> cmp x x \<Longrightarrow>
     set_insert cmp (fst (set_insert cmp xs x)) x = (fst (set_insert cmp xs x), False)"
  by (induction xs) (simp_all add: Let_def)

lemma set_insert_lower_bound_twice:
  "\<not> cmp x x \<Longrightarrow>
     set_lower_bound cmp (fst (set_insert cmp xs x)) x = set_lower_bound cmp xs x"
  by (induction xs) (simp_all add: set_lower_bound_def Let_def)

subsection \<open>The ordered set: erasure by key\<close>

text \<open>
  In a set in comparator order, with a comparator that is irreflexive and transitive on
  the elements and the key, the range between the two bounds holds exactly the elements
  equivalent to the key.
\<close>

lemma set_bounds_equiv:
  assumes "sorted_wrt cmp xs" "transp_on (insert k (set xs)) cmp" "\<And>x. \<not> cmp x x"
  shows "set_lower_bound cmp xs k \<le> set_upper_bound cmp xs k \<and>
         take (set_lower_bound cmp xs k) xs @ drop (set_upper_bound cmp xs k) xs =
           filter (\<lambda>e. cmp e k \<or> cmp k e) xs \<and>
         set_upper_bound cmp xs k - set_lower_bound cmp xs k =
           length (filter (\<lambda>e. \<not> cmp e k \<and> \<not> cmp k e) xs)"
  using assms(1,2)
proof (induction xs)
  case Nil
  then show ?case by (simp add: set_lower_bound_def set_upper_bound_def)
next
  case (Cons e es)
  have tr: "transp_on (insert k (set es)) cmp"
    using Cons.prems(2) by (rule transp_on_subset) auto
  have so: "sorted_wrt cmp es" using Cons.prems(1) by simp
  note IH = Cons.IH [OF so tr]
  have trans: "cmp a b \<Longrightarrow> cmp b c \<Longrightarrow> cmp a c"
    if "a \<in> insert k (set (e # es))" "b \<in> insert k (set (e # es))"
       "c \<in> insert k (set (e # es))" for a b c
    using Cons.prems(2) that by (meson transp_onD)
  show ?case
  proof (cases "cmp e k")
    case True
    have "\<not> cmp k e"
    proof
      assume "cmp k e"
      with True have "cmp e e" using trans [of e k e] by simp
      with assms(3) show False by simp
    qed
    with True IH show ?thesis by (simp add: set_lower_bound_def set_upper_bound_def)
  next
    case False
    have after: "\<not> cmp e' k" if "e' \<in> set es" for e'
    proof
      assume "cmp e' k"
      moreover from that Cons.prems(1) have "cmp e e'" by simp
      ultimately have "cmp e k" using trans [of e e' k] that by simp
      with False show False by simp
    qed
    then have lb0: "set_lower_bound cmp es k = 0"
      by (cases es) (simp_all add: set_lower_bound_def)
    show ?thesis
    proof (cases "cmp k e")
      case True
      have "cmp k e'" if "e' \<in> set es" for e'
      proof -
        from that Cons.prems(1) have "cmp e e'" by simp
        with True show ?thesis using trans [of k e e'] that by simp
      qed
      then have "filter (\<lambda>e. cmp e k \<or> cmp k e) es = es"
        "filter (\<lambda>e. \<not> cmp e k \<and> \<not> cmp k e) es = []"
        by (simp_all add: filter_empty_conv)
      with True False show ?thesis by (simp add: set_lower_bound_def set_upper_bound_def)
    next
      case nk: False
      from IH have "take (set_lower_bound cmp es k) es @ drop (set_upper_bound cmp es k) es =
          filter (\<lambda>e. cmp e k \<or> cmp k e) es" by blast
      with lb0 have d: "drop (set_upper_bound cmp es k) es = filter (\<lambda>e. cmp e k \<or> cmp k e) es"
        by simp
      from IH have "set_upper_bound cmp es k - set_lower_bound cmp es k =
          length (filter (\<lambda>e. \<not> cmp e k \<and> \<not> cmp k e) es)" by blast
      with lb0 have n: "set_upper_bound cmp es k =
          length (filter (\<lambda>e. \<not> cmp e k \<and> \<not> cmp k e) es)" by simp
      have "set_lower_bound cmp (e # es) k = 0"
        "set_upper_bound cmp (e # es) k = Suc (set_upper_bound cmp es k)"
        using nk False by (simp_all add: set_lower_bound_def set_upper_bound_def)
      then show ?thesis using nk False d n [symmetric] by simp
    qed
  qed
qed

lemma set_erase_key_equiv:
  assumes "sorted_wrt cmp xs" "transp_on (insert k (set xs)) cmp" "\<And>x. \<not> cmp x x"
  shows "set_erase_key cmp xs k =
     (filter (\<lambda>e. cmp e k \<or> cmp k e) xs, length (filter (\<lambda>e. \<not> cmp e k \<and> \<not> cmp k e) xs))"
proof -
  note b = set_bounds_equiv [OF assms]
  show ?thesis
  proof (cases "set_lower_bound cmp xs k < set_upper_bound cmp xs k")
    case True
    with b show ?thesis by (simp add: set_erase_key_def)
  next
    case False
    with b have eq: "set_upper_bound cmp xs k = set_lower_bound cmp xs k" by simp
    with b have "xs = filter (\<lambda>e. cmp e k \<or> cmp k e) xs"
      "length (filter (\<lambda>e. \<not> cmp e k \<and> \<not> cmp k e) xs) = 0" by simp_all
    with False show ?thesis by (simp add: set_erase_key_def)
  qed
qed

lemma sum_list_filter_split:
  "sum_list (map f xs) = sum_list (map f (filter P xs)) + sum_list (map f (filter (\<lambda>x. \<not> P x) xs))"
  for f :: "'a \<Rightarrow> real"
  by (induction xs) simp_all


subsection \<open>The cached sum under each operation\<close>

lemma MoreLoad_irrefl: "\<not> BoxInTransitMoreLoad x x"
  by (simp add: BoxInTransitMoreLoad_def BoxId_less_irrefl)

lemma equiv_uniform_same_load:
  assumes "equiv_transit e k" "uniform_load e" "uniform_load k"
  shows "d_boxload e = d_boxload k"
proof (cases "size_box (d_box e) = size_box (d_box k)")
  case True
  with assms(2,3) show ?thesis by (simp add: uniform_load_def)
next
  case False
  with assms(1) have "\<not> d_boxload e > d_boxload k" "\<not> d_boxload k > d_boxload e"
    by (auto simp: equiv_transit_def BoxInTransitMoreLoad_def getBox_def)
  then show ?thesis by simp
qed

lemma computeLoad_ts_sum: "computeLoad_ts s = sum_list (map d_boxload (d_set s))"
  by (simp add: computeLoad_ts_def foldl_add_sum)



lemma sum_ok_empty: "sum_ok TransitSet_empty"
  by (simp add: sum_ok_def TransitSet_empty_def getSumLoad_def computeLoad_ts_def)

lemma sum_ok_insert: "sum_ok s \<Longrightarrow> sum_ok (fst (insert_ts s x))"
  by (simp add: sum_ok_def insert_ts_def getSumLoad_def computeLoad_ts_sum
      case_prod_beta set_insert_sum set_insert_not_inserted)

lemma set_insert_range_length_le:
  "length (set_insert_range cmp xs ys) \<le> length xs + length ys"
proof (induction ys arbitrary: xs)
  case Nil
  then show ?case by simp
next
  case (Cons y ys)
  have "length (set_insert_range cmp (fst (set_insert cmp xs y)) ys)
          \<le> length (fst (set_insert cmp xs y)) + length ys" by (rule Cons.IH)
  also have "\<dots> \<le> Suc (length xs) + length ys" by (simp add: set_insert_length)
  finally show ?case by simp
qed

lemma set_insert_range_full:
  "length (set_insert_range cmp xs ys) = length xs + length ys \<Longrightarrow>
     sum_list (map f (set_insert_range cmp xs ys)) = sum_list (map f xs) + sum_list (map f ys) \<and>
     set (set_insert_range cmp xs ys) = set xs \<union> set ys"
  for f :: "'a \<Rightarrow> real"
proof (induction ys arbitrary: xs)
  case Nil
  then show ?case by simp
next
  case (Cons y ys)
  let ?xs' = "fst (set_insert cmp xs y)"
  have le: "length (set_insert_range cmp ?xs' ys) \<le> length ?xs' + length ys"
    by (rule set_insert_range_length_le)
  have ins: "snd (set_insert cmp xs y)"
  proof (rule ccontr)
    assume "\<not> snd (set_insert cmp xs y)"
    then have "length ?xs' = length xs" by (simp add: set_insert_length)
    with le Cons.prems show False by simp
  qed
  then have len: "length ?xs' = Suc (length xs)" by (simp add: set_insert_length)
  with Cons.prems have "length (set_insert_range cmp ?xs' ys) = length ?xs' + length ys" by simp
  from Cons.IH [OF this] ins show ?case
    by (simp add: set_insert_sum set_insert_set)
qed

lemma foldl_range_count:
  "foldl (\<lambda>(sumload, tmp_size) i. (sumload + f i, Suc tmp_size)) (a, n) ys =
     (a + sum_list (map f ys), n + length ys)"
  for a :: real and n :: nat
  by (induction ys arbitrary: a n) (simp_all add: algebra_simps)

lemma insert_range_ts_Inr:
  "insert_range_ts s ys = Inr s' \<longleftrightarrow>
     length (set_insert_range BoxInTransitMoreLoad (d_set s) ys) = length (d_set s) + length ys \<and>
     s' = \<lparr>d_set = set_insert_range BoxInTransitMoreLoad (d_set s) ys,
           d_sumload = d_sumload s + sum_list (map d_boxload ys)\<rparr>"
  by (auto simp: insert_range_ts_def Let_def size_ts_def foldl_range_count)

lemma insert_range_ts_Inl:
  "(\<exists>e. insert_range_ts s ys = Inl e) \<longleftrightarrow>
     length (set_insert_range BoxInTransitMoreLoad (d_set s) ys) \<noteq> length (d_set s) + length ys"
  by (auto simp: insert_range_ts_def Let_def size_ts_def foldl_range_count)

lemma sum_ok_insert_range: "sum_ok s \<Longrightarrow> insert_range_ts s ys = Inr s' \<Longrightarrow> sum_ok s'"
  using set_insert_range_full [of BoxInTransitMoreLoad "d_set s" ys d_boxload]
  by (simp add: insert_range_ts_Inr sum_ok_def getSumLoad_def computeLoad_ts_sum)

lemma sum_list_erase_pos:
  "pos < length xs \<Longrightarrow>
     sum_list (map f (set_erase_pos xs pos)) = sum_list (map f xs) - f (xs ! pos)"
  for f :: "'a \<Rightarrow> real"
proof -
  assume "pos < length xs"
  then have "xs = take pos xs @ xs ! pos # drop (Suc pos) xs"
    by (simp add: id_take_nth_drop)
  then have "sum_list (map f xs) =
      sum_list (map f (take pos xs)) + f (xs ! pos) + sum_list (map f (drop (Suc pos) xs))"
    by (metis add.assoc list.simps(9) map_append sum_list.Cons sum_list_append)
  then show ?thesis by (simp add: set_erase_pos_def)
qed

lemma sum_ok_erase_pos: "sum_ok s \<Longrightarrow> pos < size_ts s \<Longrightarrow> sum_ok (erase_pos_ts s pos)"
  by (simp add: sum_ok_def erase_pos_ts_def getSumLoad_def computeLoad_ts_sum size_ts_def
      sum_list_erase_pos)

lemma sum_ok_clear: "sum_ok (clear_ts s)"
  by (simp add: sum_ok_def clear_ts_def getSumLoad_def computeLoad_ts_def)

lemma sum_ok_swap:
  "sum_ok s \<Longrightarrow> sum_ok other \<Longrightarrow> sum_ok (fst (swap_ts s other)) \<and> sum_ok (snd (swap_ts s other))"
  by (simp add: sum_ok_def swap_ts_def getSumLoad_def computeLoad_ts_def Let_def)

subsection \<open>The uniform load model\<close>

text \<open>Under the uniform load model the comparator is transitive.\<close>

lemma MoreLoad_uniform:
  "uniform_load a \<Longrightarrow> uniform_load b \<Longrightarrow>
     BoxInTransitMoreLoad a b \<longleftrightarrow>
       size_box (d_box a) > size_box (d_box b) \<or>
       (size_box (d_box a) = size_box (d_box b) \<and>
        BoxId_less (getBoxId (d_box a)) (getBoxId (d_box b)))"
  by (auto simp: BoxInTransitMoreLoad_def uniform_load_def getBox_def)

lemma MoreLoad_transp_uniform:
  assumes "\<forall>x \<in> U. uniform_load x"
  shows "transp_on U BoxInTransitMoreLoad"
proof (rule transp_onI)
  fix a b c
  assume "a \<in> U" "b \<in> U" "c \<in> U"
  with assms have u: "uniform_load a" "uniform_load b" "uniform_load c" by simp_all
  assume "BoxInTransitMoreLoad a b" "BoxInTransitMoreLoad b c"
  then show "BoxInTransitMoreLoad a c"
    unfolding MoreLoad_uniform [OF u(1,2)] MoreLoad_uniform [OF u(2,3)] MoreLoad_uniform [OF u(1,3)]
    using BoxId_less_trans by (elim disjE conjE) auto
qed

subsection \<open>The example values, evaluated\<close>

lemma size_box_make_box:
  "size_box (make_box lo hi r i) =
     (if list_ex (\<lambda>(l, u). u < l) (zip lo hi) then 0
      else prod_list (map (\<lambda>(l, u). nat (u - l + 1)) (zip lo hi)))"
  by (simp add: size_box_def empty_box_def make_box_def)

lemma MoreLoad_make:
  "BoxInTransitMoreLoad (make_transit (make_box lo hi r i) l)
       (make_transit (make_box lo' hi' r' i') l') =
     (if size_box (make_box lo hi r i) \<noteq> size_box (make_box lo' hi' r' i') then l > l'
      else r < r' \<or> (r = r' \<and> i < i'))"
  by (simp add: BoxInTransitMoreLoad_def getBox_def getBoxId_def make_transit_def
      make_box_def BoxId_less_def)

lemmas ex_defs = ex_u1_def ex_u2_def ex_u3_def ex_a_def ex_b_def ex_k_def
  ex_e1_def ex_e2_def ex_k3_def

lemma ex_sizes:
  "size_box (d_box ex_u1) = 6" "size_box (d_box ex_u2) = 4" "size_box (d_box ex_u3) = 4"
  "size_box (d_box ex_a) = 2" "size_box (d_box ex_b) = 2" "size_box (d_box ex_k) = 2"
  by (simp_all add: ex_defs make_transit_def size_box_make_box)

lemma ex_loads:
  "d_boxload ex_u1 = 6" "d_boxload ex_u2 = 4" "d_boxload ex_u3 = 4"
  "d_boxload ex_a = 5" "d_boxload ex_b = 3" "d_boxload ex_k = 3"
  by (simp_all add: ex_defs make_transit_def)

lemma ex_cmp:
  "BoxInTransitMoreLoad ex_u1 ex_u2" "BoxInTransitMoreLoad ex_u1 ex_u3"
  "BoxInTransitMoreLoad ex_u2 ex_u3"
  "\<not> BoxInTransitMoreLoad ex_u2 ex_u1" "\<not> BoxInTransitMoreLoad ex_u3 ex_u1"
  "\<not> BoxInTransitMoreLoad ex_u3 ex_u2"
  "\<not> BoxInTransitMoreLoad ex_u1 ex_u1" "\<not> BoxInTransitMoreLoad ex_u2 ex_u2"
  "\<not> BoxInTransitMoreLoad ex_u3 ex_u3"
  "\<not> BoxInTransitMoreLoad ex_a ex_b" "BoxInTransitMoreLoad ex_b ex_a"
  "\<not> BoxInTransitMoreLoad ex_a ex_k" "\<not> BoxInTransitMoreLoad ex_k ex_a"
  "\<not> BoxInTransitMoreLoad ex_a ex_a"
  by (simp_all add: ex_defs MoreLoad_make size_box_make_box)


subsection \<open>Single insert\<close>

lemma equiv_transit_sym: "equiv_transit a b \<longleftrightarrow> equiv_transit b a"
  by (auto simp: equiv_transit_def)

text \<open>
  C9. For every TransitSet \<open>s\<close> (its elements in comparator order, the comparator
  transitive on them and \<open>x\<close>, as \<open>std::set\<close> requires) and every record \<open>x\<close>: if
  \<open>s\<close> holds an element equivalent to \<open>x\<close>, \<open>insert(x)\<close> returns false as its second
  component and leaves the contents and \<open>getSumLoad()\<close> unchanged; and inserting \<open>x\<close>
  twice gives the state that inserting it once gives.
\<close>

theorem insert_existing_is_noop:
  assumes "sorted_wrt BoxInTransitMoreLoad (d_set s)"
    and "transp_on (insert x (set (d_set s))) BoxInTransitMoreLoad"
  shows "((\<exists>e \<in> set (d_set s). equiv_transit e x) \<longrightarrow>
            \<not> snd (snd (insert_ts s x)) \<and> d_set (fst (insert_ts s x)) = d_set s \<and>
            getSumLoad (fst (insert_ts s x)) = getSumLoad s \<and> fst (insert_ts s x) = s) \<and>
         fst (insert_ts (fst (insert_ts s x)) x) = fst (insert_ts s x) \<and>
         \<not> snd (snd (insert_ts (fst (insert_ts s x)) x))"
proof -
  let ?r = "set_insert BoxInTransitMoreLoad (d_set s) x"
  have iff: "snd ?r \<longleftrightarrow> \<not> (\<exists>e \<in> set (d_set s). equiv_transit e x)"
    using set_insert_inserted_iff [OF assms] by (simp add: equiv_transit_def)
  have first: "\<not> snd (snd (insert_ts s x)) \<and> d_set (fst (insert_ts s x)) = d_set s \<and>
            getSumLoad (fst (insert_ts s x)) = getSumLoad s \<and> fst (insert_ts s x) = s"
    if "\<exists>e \<in> set (d_set s). equiv_transit e x"
  proof -
    from that iff have no: "\<not> snd ?r" by simp
    then have "fst ?r = d_set s" by (rule set_insert_not_inserted)
    with no show ?thesis by (simp add: insert_ts_def case_prod_beta getSumLoad_def)
  qed
  have twice: "set_insert BoxInTransitMoreLoad (fst ?r) x = (fst ?r, False)"
    by (rule set_insert_twice) (rule MoreLoad_irrefl)
  have "fst (insert_ts (fst (insert_ts s x)) x) = fst (insert_ts s x) \<and>
         \<not> snd (snd (insert_ts (fst (insert_ts s x)) x))"
    by (simp add: insert_ts_def case_prod_beta twice)
  with first show ?thesis by blast
qed

lemma ex_transp:
  "transp_on {ex_u1, ex_u2, ex_u3} BoxInTransitMoreLoad"
  unfolding transp_on_def by (simp add: ex_cmp)

theorem insert_existing_is_noop_witness:
  "sorted_wrt BoxInTransitMoreLoad (d_set \<lparr>d_set = [ex_u1, ex_u3], d_sumload = 10\<rparr>) \<and>
   transp_on (insert ex_u3 (set (d_set \<lparr>d_set = [ex_u1, ex_u3], d_sumload = 10\<rparr>))) BoxInTransitMoreLoad \<and>
   equiv_transit ex_u3 ex_u3 \<and>
   insert_ts \<lparr>d_set = [ex_u1, ex_u3], d_sumload = 10\<rparr> ex_u3 = (\<lparr>d_set = [ex_u1, ex_u3], d_sumload = 10\<rparr>, (1, False)) \<and>
   fst (insert_ts (fst (insert_ts \<lparr>d_set = [ex_u1, ex_u3], d_sumload = 10\<rparr> ex_u2)) ex_u2) =
     \<lparr>d_set = [ex_u1, ex_u2, ex_u3], d_sumload = 14\<rparr>"
proof -
  have so: "sorted_wrt BoxInTransitMoreLoad (d_set \<lparr>d_set = [ex_u1, ex_u3], d_sumload = 10\<rparr>)"
    by (simp add: ex_cmp)
  have tr: "transp_on (insert x (set (d_set \<lparr>d_set = [ex_u1, ex_u3], d_sumload = 10\<rparr>))) BoxInTransitMoreLoad"
    if "x = ex_u2 \<or> x = ex_u3" for x
    using that ex_transp by (rule_tac transp_on_subset [OF ex_transp]) auto
  have eq: "equiv_transit ex_u3 ex_u3" by (simp add: equiv_transit_def ex_cmp)
  have i2: "fst (insert_ts \<lparr>d_set = [ex_u1, ex_u3], d_sumload = 10\<rparr> ex_u2) = \<lparr>d_set = [ex_u1, ex_u2, ex_u3], d_sumload = 14\<rparr>"
    by (simp add: insert_ts_def ex_cmp ex_loads)
  have lb: "snd (insert_ts \<lparr>d_set = [ex_u1, ex_u3], d_sumload = 10\<rparr> ex_u3) = (1, False)"
    by (simp add: insert_ts_def ex_cmp set_lower_bound_def)
  from insert_existing_is_noop [OF so tr, of ex_u3] insert_existing_is_noop [OF so tr, of ex_u2]
    so tr [of ex_u3] eq i2 lb
  show ?thesis by (simp add: prod_eq_iff)
qed

subsection \<open>Range insert\<close>

lemma range_collides_insert:
  "set xs' = insert y (set xs) \<Longrightarrow>
     range_collides xs' ys \<longleftrightarrow> range_collides xs ys \<or> (\<exists>z \<in> set ys. equiv_transit y z)"
  by (induction ys) (auto simp: list_ex_iff)

lemma set_insert_range_length_iff:
  assumes "sorted_wrt BoxInTransitMoreLoad xs"
    and "transp_on (set xs \<union> set ys) BoxInTransitMoreLoad"
  shows "length (set_insert_range BoxInTransitMoreLoad xs ys) = length xs + length ys
           \<longleftrightarrow> \<not> range_collides xs ys"
  using assms
proof (induction ys arbitrary: xs)
  case Nil
  then show ?case by simp
next
  case (Cons y ys)
  let ?cmp = BoxInTransitMoreLoad
  let ?xs' = "fst (set_insert ?cmp xs y)"
  have tr: "transp_on (insert y (set xs)) ?cmp"
    using Cons.prems(2) by (rule transp_on_subset) auto
  have iff: "snd (set_insert ?cmp xs y) \<longleftrightarrow> \<not> (\<exists>e \<in> set xs. equiv_transit e y)"
    using set_insert_inserted_iff [OF Cons.prems(1) tr] by (simp add: equiv_transit_def)
  show ?case
  proof (cases "snd (set_insert ?cmp xs y)")
    case False
    then have "length ?xs' = length xs" by (simp add: set_insert_length)
    moreover have "length (set_insert_range ?cmp ?xs' ys) \<le> length ?xs' + length ys"
      by (rule set_insert_range_length_le)
    ultimately have "length (set_insert_range ?cmp xs (y # ys)) \<noteq> length xs + length (y # ys)"
      by simp
    moreover from False iff have "range_collides xs (y # ys)" by (simp add: list_ex_iff)
    ultimately show ?thesis by blast
  next
    case True
    then have len: "length ?xs' = Suc (length xs)" by (simp add: set_insert_length)
    from True have st: "set ?xs' = insert y (set xs)" by (simp add: set_insert_set)
    have so': "sorted_wrt ?cmp ?xs'" by (rule set_insert_sorted [OF Cons.prems(1) tr])
    have tr': "transp_on (set ?xs' \<union> set ys) ?cmp"
      using Cons.prems(2) by (rule transp_on_subset) (auto simp: st)
    from Cons.IH [OF so' tr'] len
    have "length (set_insert_range ?cmp xs (y # ys)) = length xs + length (y # ys)
            \<longleftrightarrow> \<not> range_collides ?xs' ys" by simp
    also have "\<dots> \<longleftrightarrow> \<not> (range_collides xs ys \<or> (\<exists>z \<in> set ys. equiv_transit y z))"
      by (simp add: range_collides_insert [OF st])
    also have "\<dots> \<longleftrightarrow> \<not> range_collides xs (y # ys)"
      using True iff by (auto simp: list_ex_iff)
    finally show ?thesis .
  qed
qed

lemma insert_range_ts_eq:
  "insert_range_ts s ys =
     (if length (set_insert_range BoxInTransitMoreLoad (d_set s) ys) \<noteq> length (d_set s) + length ys
      then Inl (TBOX_ERROR ''TransitSet's range insert currently can't weed out duplicates.'')
      else Inr \<lparr>d_set = set_insert_range BoxInTransitMoreLoad (d_set s) ys,
                d_sumload = d_sumload s + sum_list (map d_boxload ys)\<rparr>)"
  by (simp add: insert_range_ts_def Let_def size_ts_def foldl_range_count)

text \<open>
  C5. For every TransitSet (its elements in comparator order, the comparator transitive on
  them and the range, as \<open>std::set\<close> requires) and every range of records: if a record
  of the range is equivalent to an element of the set or to another record of the range,
  the range insert ends in \<open>TBOX_ERROR\<close>; otherwise it returns normally, every record of
  the range is in the set, and the cached sum has grown by their total load.
\<close>

theorem range_insert_refuses_duplicates:
  assumes "sorted_wrt BoxInTransitMoreLoad (d_set s)"
    and "transp_on (set (d_set s) \<union> set ys) BoxInTransitMoreLoad"
  shows "(range_collides (d_set s) ys \<longrightarrow> (\<exists>msg. insert_range_ts s ys = Inl (TBOX_ERROR msg))) \<and>
         (\<not> range_collides (d_set s) ys \<longrightarrow>
            (\<exists>s'. insert_range_ts s ys = Inr s' \<and>
                  set (d_set s') = set (d_set s) \<union> set ys \<and>
                  size_ts s' = size_ts s + length ys \<and>
                  getSumLoad s' = getSumLoad s + sum_list (map d_boxload ys)))"
proof (intro conjI impI)
  assume "range_collides (d_set s) ys"
  with set_insert_range_length_iff [OF assms]
  show "\<exists>msg. insert_range_ts s ys = Inl (TBOX_ERROR msg)"
    by (simp add: insert_range_ts_eq)
next
  assume "\<not> range_collides (d_set s) ys"
  with set_insert_range_length_iff [OF assms]
  have len: "length (set_insert_range BoxInTransitMoreLoad (d_set s) ys) = length (d_set s) + length ys"
    by simp
  from set_insert_range_full [OF len, of d_boxload] len
  show "\<exists>s'. insert_range_ts s ys = Inr s' \<and>
                  set (d_set s') = set (d_set s) \<union> set ys \<and>
                  size_ts s' = size_ts s + length ys \<and>
                  getSumLoad s' = getSumLoad s + sum_list (map d_boxload ys)"
    by (simp add: insert_range_ts_eq size_ts_def getSumLoad_def)
qed

theorem range_insert_refuses_duplicates_witness:
  "sorted_wrt BoxInTransitMoreLoad (d_set \<lparr>d_set = [ex_u1], d_sumload = 6\<rparr>) \<and>
   transp_on (set (d_set \<lparr>d_set = [ex_u1], d_sumload = 6\<rparr>) \<union> set [ex_u2, ex_u3]) BoxInTransitMoreLoad \<and>
   \<not> range_collides (d_set \<lparr>d_set = [ex_u1], d_sumload = 6\<rparr>) [ex_u2, ex_u3] \<and>
   insert_range_ts \<lparr>d_set = [ex_u1], d_sumload = 6\<rparr> [ex_u2, ex_u3] =
     Inr \<lparr>d_set = [ex_u1, ex_u2, ex_u3], d_sumload = 14\<rparr> \<and>
   transp_on (set (d_set \<lparr>d_set = [ex_u1], d_sumload = 6\<rparr>) \<union> set [ex_u2, ex_u2]) BoxInTransitMoreLoad \<and>
   range_collides (d_set \<lparr>d_set = [ex_u1], d_sumload = 6\<rparr>) [ex_u2, ex_u2] \<and>
   insert_range_ts \<lparr>d_set = [ex_u1], d_sumload = 6\<rparr> [ex_u2, ex_u2] =
     Inl (TBOX_ERROR ''TransitSet's range insert currently can't weed out duplicates.'')"
proof -
  let ?s = "\<lparr>d_set = [ex_u1], d_sumload = 6\<rparr>"
  have so: "sorted_wrt BoxInTransitMoreLoad (d_set ?s)" by simp
  have tr1: "transp_on (set (d_set ?s) \<union> set [ex_u2, ex_u3]) BoxInTransitMoreLoad"
    by (rule transp_on_subset [OF ex_transp]) auto
  have tr2: "transp_on (set (d_set ?s) \<union> set [ex_u2, ex_u2]) BoxInTransitMoreLoad"
    by (rule transp_on_subset [OF ex_transp]) auto
  have c1: "\<not> range_collides (d_set ?s) [ex_u2, ex_u3]"
    by (simp add: equiv_transit_def ex_cmp)
  have c2: "range_collides (d_set ?s) [ex_u2, ex_u2]"
    by (simp add: equiv_transit_def ex_cmp)
  have r: "insert_range_ts ?s [ex_u2, ex_u3] = Inr \<lparr>d_set = [ex_u1, ex_u2, ex_u3], d_sumload = 14\<rparr>"
    by (simp add: insert_range_ts_eq ex_cmp ex_loads)
  have e: "insert_range_ts ?s [ex_u2, ex_u2] =
      Inl (TBOX_ERROR ''TransitSet's range insert currently can't weed out duplicates.'')"
    by (simp add: insert_range_ts_eq ex_cmp)
  from range_insert_refuses_duplicates [OF so tr1] range_insert_refuses_duplicates [OF so tr2]
    so tr1 tr2 c1 c2 r e
  show ?thesis by simp
qed

subsection \<open>The load of a box\<close>


lemma in_range_eq: "(\<lambda>x (l, u). l \<le> x \<and> x \<le> u) = in_range"
  by (simp add: fun_eq_iff in_range_def)

lemma cells_points: "cells b = points (zip (lower b) (upper b))"
  by (simp add: cells_def points_def in_range_eq)

lemma points_Nil: "points [] = {[]}"
  by (auto simp: points_def)

lemma points_Cons: "points (r # rs) = (\<lambda>(x, p). x # p) ` ({fst r .. snd r} \<times> points rs)"
  by (auto simp: points_def in_range_def list_all2_Cons2)

lemma finite_points: "finite (points rs)"
  by (induction rs) (simp_all add: points_Nil points_Cons)

lemma card_points: "card (points rs) = prod_list (map (\<lambda>r. nat (snd r - fst r + 1)) rs)"
proof (induction rs)
  case Nil
  then show ?case by (simp add: points_Nil)
next
  case (Cons r rs)
  have "inj_on (\<lambda>(x, p). x # p) ({fst r .. snd r} \<times> points rs)"
    by (auto simp: inj_on_def)
  then have "card (points (r # rs)) = card ({fst r .. snd r} \<times> points rs)"
    by (simp add: points_Cons card_image)
  also have "\<dots> = nat (snd r - fst r + 1) * card (points rs)"
    by (simp add: card_cartesian_product)
  finally show ?case by (simp add: Cons.IH)
qed

lemma prod_list_empty_range:
  "list_ex (\<lambda>r. snd r < fst r) rs \<Longrightarrow> prod_list (map (\<lambda>r. nat (snd r - fst r + 1)) rs) = 0"
  by (induction rs) auto

lemma size_box_card: "size_box b = card (cells b)"
proof -
  have 1: "(\<lambda>(l, u). u < l) = (\<lambda>r :: int \<times> int. snd r < fst r)"
    and 2: "(\<lambda>(l, u). nat (u - l + 1)) = (\<lambda>r :: int \<times> int. nat (snd r - fst r + 1))"
    by (simp_all add: fun_eq_iff)
  show ?thesis
    using prod_list_empty_range [of "zip (lower b) (upper b)"]
    by (simp add: size_box_def empty_box_def cells_points card_points 1 2 del: map_eq_conv)
qed

lemma cells_nth:
  "wf_box b \<Longrightarrow>
     p \<in> cells b \<longleftrightarrow>
       length p = getDim b \<and> (\<forall>i < getDim b. lower b ! i \<le> p ! i \<and> p ! i \<le> upper b ! i)"
  by (auto simp: cells_def wf_box_def getDim_def list_all2_conv_all_nth)

lemma wf_box_intersect:
  "wf_box a \<Longrightarrow> wf_box b \<Longrightarrow> getDim a = getDim b \<Longrightarrow>
     wf_box (box_intersect a b) \<and> getDim (box_intersect a b) = getDim a"
  by (simp add: wf_box_def getDim_def box_intersect_def)

lemma cells_intersect:
  assumes "wf_box a" "wf_box b" "getDim a = getDim b"
  shows "cells (box_intersect a b) = cells a \<inter> cells b"
proof -
  from wf_box_intersect [OF assms] have wi: "wf_box (box_intersect a b)"
    and di: "getDim (box_intersect a b) = getDim a" by simp_all
  have nth: "lower (box_intersect a b) ! i = max (lower a ! i) (lower b ! i) \<and>
             upper (box_intersect a b) ! i = min (upper a ! i) (upper b ! i)"
    if "i < getDim a" for i
    using that assms by (simp add: box_intersect_def wf_box_def getDim_def)
  show ?thesis
  proof (rule set_eqI)
    fix p
    show "p \<in> cells (box_intersect a b) \<longleftrightarrow> p \<in> cells a \<inter> cells b"
      using assms(3) nth by (auto simp: cells_nth [OF wi] cells_nth [OF assms(1)] cells_nth [OF assms(2)] di)
  qed
qed

text \<open>
  C7. For every box, \<open>computeLoad(box)\<close> is the cell count of the box, and for every
  pair of boxes of one dimension, \<open>computeLoad(box, restriction)\<close> is the cell count of
  the intersection of the two.
\<close>

theorem computeLoad_cell_count:
  "computeLoad box = real (card (cells box)) \<and>
   (wf_box box \<and> wf_box restriction \<and> getDim box = getDim restriction \<longrightarrow>
      computeLoad_restricted box restriction = real (card (cells box \<inter> cells restriction)))"
  by (simp add: computeLoad_def computeLoad_restricted_def size_box_card cells_intersect)

theorem computeLoad_cell_count_witness:
  "wf_box ex_box \<and> wf_box ex_restriction \<and> getDim ex_box = getDim ex_restriction \<and>
   computeLoad ex_box = 6 \<and> card (cells ex_box) = 6 \<and>
   computeLoad_restricted ex_box ex_restriction = 4 \<and>
   card (cells ex_box \<inter> cells ex_restriction) = 4"
proof -
  have wf: "wf_box ex_box" "wf_box ex_restriction" "getDim ex_box = getDim ex_restriction"
    by (simp_all add: ex_box_def ex_restriction_def make_box_def wf_box_def getDim_def)
  have l1: "computeLoad ex_box = 6"
    by (simp add: computeLoad_def ex_box_def size_box_make_box)
  have l2: "computeLoad_restricted ex_box ex_restriction = 4"
    by (simp add: computeLoad_restricted_def box_intersect_def ex_box_def ex_restriction_def
        make_box_def size_box_def empty_box_def)
  from computeLoad_cell_count [of ex_box ex_restriction] wf l1 l2 show ?thesis by simp
qed

subsection \<open>Cutting a box by a plane\<close>

lemma wf_slice:
  "wf_box b \<Longrightarrow> wf_box (slice_below b d v) \<and> getDim (slice_below b d v) = getDim b \<and>
     wf_box (slice_from b d v) \<and> getDim (slice_from b d v) = getDim b"
  by (simp add: wf_box_def getDim_def slice_below_def slice_from_def)

lemma cells_slice_below:
  assumes "wf_box b" "d < getDim b" "v \<le> upper b ! d + 1"
  shows "cells (slice_below b d v) = {p \<in> cells b. p ! d < v}"
proof (rule set_eqI)
  fix p
  have wf': "wf_box (slice_below b d v)" and dim': "getDim (slice_below b d v) = getDim b"
    using wf_slice [OF assms(1)] by simp_all
  have len: "length (upper b) = getDim b" using assms(1) by (simp add: wf_box_def getDim_def)
  have up: "upper (slice_below b d v) ! i = (if i = d then v - 1 else upper b ! i)"
    if "i < getDim b" for i
    using that len by (simp add: slice_below_def nth_list_update)
  have lo: "lower (slice_below b d v) = lower b" by (simp add: slice_below_def)
  show "p \<in> cells (slice_below b d v) \<longleftrightarrow> p \<in> {p \<in> cells b. p ! d < v}"
  proof
    assume "p \<in> cells (slice_below b d v)"
    then have l: "length p = getDim b"
      and a: "\<forall>i < getDim b. lower b ! i \<le> p ! i \<and> p ! i \<le> (if i = d then v - 1 else upper b ! i)"
      by (simp_all add: cells_nth [OF wf'] dim' lo up)
    from a assms(2) have "p ! d \<le> v - 1" by auto
    moreover have "\<forall>i < getDim b. lower b ! i \<le> p ! i \<and> p ! i \<le> upper b ! i"
    proof (intro allI impI)
      fix i assume "i < getDim b"
      with a assms(3) show "lower b ! i \<le> p ! i \<and> p ! i \<le> upper b ! i"
        by (cases "i = d") auto
    qed
    ultimately show "p \<in> {p \<in> cells b. p ! d < v}"
      using l by (simp add: cells_nth [OF assms(1)])
  next
    assume "p \<in> {p \<in> cells b. p ! d < v}"
    then have l: "length p = getDim b"
      and a: "\<forall>i < getDim b. lower b ! i \<le> p ! i \<and> p ! i \<le> upper b ! i"
      and v: "p ! d < v"
      by (simp_all add: cells_nth [OF assms(1)])
    then show "p \<in> cells (slice_below b d v)"
      by (simp add: cells_nth [OF wf'] dim' lo up)
  qed
qed

lemma cells_slice_from:
  assumes "wf_box b" "d < getDim b" "lower b ! d \<le> v"
  shows "cells (slice_from b d v) = {p \<in> cells b. v \<le> p ! d}"
proof (rule set_eqI)
  fix p
  have wf': "wf_box (slice_from b d v)" and dim': "getDim (slice_from b d v) = getDim b"
    using wf_slice [OF assms(1)] by simp_all
  have lo: "lower (slice_from b d v) ! i = (if i = d then v else lower b ! i)"
    if "i < getDim b" for i
    using that by (simp add: slice_from_def nth_list_update getDim_def)
  have up: "upper (slice_from b d v) = upper b" by (simp add: slice_from_def)
  show "p \<in> cells (slice_from b d v) \<longleftrightarrow> p \<in> {p \<in> cells b. v \<le> p ! d}"
  proof
    assume "p \<in> cells (slice_from b d v)"
    then have l: "length p = getDim b"
      and a: "\<forall>i < getDim b. (if i = d then v else lower b ! i) \<le> p ! i \<and> p ! i \<le> upper b ! i"
      by (simp_all add: cells_nth [OF wf'] dim' lo up)
    from a assms(2) have "v \<le> p ! d" by auto
    moreover have "\<forall>i < getDim b. lower b ! i \<le> p ! i \<and> p ! i \<le> upper b ! i"
    proof (intro allI impI)
      fix i assume "i < getDim b"
      with a assms(3) show "lower b ! i \<le> p ! i \<and> p ! i \<le> upper b ! i"
        by (cases "i = d") auto
    qed
    ultimately show "p \<in> {p \<in> cells b. v \<le> p ! d}"
      using l by (simp add: cells_nth [OF assms(1)])
  next
    assume "p \<in> {p \<in> cells b. v \<le> p ! d}"
    then have l: "length p = getDim b"
      and a: "\<forall>i < getDim b. lower b ! i \<le> p ! i \<and> p ! i \<le> upper b ! i"
      and v: "v \<le> p ! d"
      by (simp_all add: cells_nth [OF assms(1)])
    then show "p \<in> cells (slice_from b d v)"
      by (simp add: cells_nth [OF wf'] dim' lo up)
  qed
qed

text \<open>A plane inside a box, or on one of its two faces, cuts it into two disjoint slabs.\<close>

lemma cells_slices:
  assumes "wf_box b" "d < getDim b" "lower b ! d \<le> v" "v \<le> upper b ! d + 1"
  shows "cells (slice_below b d v) \<union> cells (slice_from b d v) = cells b"
    and "cells (slice_below b d v) \<inter> cells (slice_from b d v) = {}"
  by (auto simp: cells_slice_below [OF assms(1,2,4)] cells_slice_from [OF assms(1,2,3)])

subsection \<open>Partitions of a box\<close>

lemma contains_box_nth:
  "wf_box a \<Longrightarrow>
     contains_box a b \<longleftrightarrow>
       wf_box b \<and> getDim b = getDim a \<and>
       (\<forall>i < getDim a. lower a ! i \<le> lower b ! i \<and> upper b ! i \<le> upper a ! i)"
  by (auto simp: contains_box_def wf_box_def getDim_def list_all2_conv_all_nth)

lemma empty_box_nth:
  "wf_box b \<Longrightarrow> empty_box b \<longleftrightarrow> (\<exists>i < getDim b. upper b ! i < lower b ! i)"
  by (auto simp: empty_box_def wf_box_def getDim_def list_ex_iff set_zip)

lemma partitions_tiles: "partitions bs (cells box) \<Longrightarrow> tiles bs box"
proof -
  assume p: "partitions bs (cells box)"
  then have un: "(\<Union>b \<in> set bs. cells b) = cells box"
    and dj: "\<And>i j. i < j \<Longrightarrow> j < length bs \<Longrightarrow> cells (bs ! i) \<inter> cells (bs ! j) = {}"
    by (simp_all add: partitions_def sorted_wrt_iff_nth_less)
  have sub: "cells (bs ! i) \<subseteq> cells box" if "i < length bs" for i
    using un that by (metis UN_upper nth_mem)
  have ex1: "\<exists>!i. i < length bs \<and> p \<in> cells (bs ! i)" if "p \<in> cells box" for p
  proof -
    from that un obtain b where "b \<in> set bs" "p \<in> cells b" by blast
    then obtain i where i: "i < length bs" "p \<in> cells (bs ! i)"
      by (auto simp: in_set_conv_nth)
    have "j = i" if j: "j < length bs" "p \<in> cells (bs ! j)" for j
    proof (rule ccontr)
      assume "j \<noteq> i"
      then consider "i < j" | "j < i" by linarith
      then show False
      proof cases
        case 1
        from dj [OF 1 j(1)] i(2) j(2) show False by blast
      next
        case 2
        from dj [OF 2 i(1)] i(2) j(2) show False by blast
      qed
    qed
    with i show ?thesis by blast
  qed
  show ?thesis unfolding tiles_def using ex1 sub by blast
qed

lemma partitions_split:
  assumes "partitions (c # bs) S" "cells c1 \<union> cells c2 = cells c" "cells c1 \<inter> cells c2 = {}"
  shows "partitions (c1 # bs @ [c2]) S"
proof -
  from assms(1) have un: "cells c \<union> (\<Union>b \<in> set bs. cells b) = S"
    and d1: "\<forall>x \<in> set bs. cells c \<inter> cells x = {}"
    and d2: "sorted_wrt (\<lambda>a b. cells a \<inter> cells b = {}) bs"
    by (simp_all add: partitions_def)
  from assms(2) have s1: "cells c1 \<subseteq> cells c" and s2: "cells c2 \<subseteq> cells c" by blast+
  have "(\<Union>b \<in> set (c1 # bs @ [c2]). cells b) = S"
    using un assms(2) by auto
  moreover have "\<forall>x \<in> set bs. cells c1 \<inter> cells x = {}" using d1 s1 by blast
  moreover have "\<forall>x \<in> set bs. cells x \<inter> cells c2 = {}" using d1 s2 by blast
  ultimately show ?thesis
    using d2 assms(3) by (simp add: partitions_def sorted_wrt_append)
qed

lemma partitions_same_cells:
  "partitions (c # bs) S \<Longrightarrow> cells c' = cells c \<Longrightarrow> partitions (c' # bs) S"
  by (simp add: partitions_def)

subsection \<open>Bursting\<close>

lemma slice_nth:
  "i < length (upper b) \<Longrightarrow> upper (slice_below b d v) ! i = (if i = d then v - 1 else upper b ! i)"
  "lower (slice_below b d v) = lower b"
  "i < length (lower b) \<Longrightarrow> lower (slice_from b d v) ! i = (if i = d then v else lower b ! i)"
  "upper (slice_from b d v) = upper b"
  by (simp_all add: slice_below_def slice_from_def nth_list_update)

lemma burst_face_step:
  assumes inv: "burst_inv bursty solid (cutme, boxes)"
    and ne: "\<not> empty_box solid"
    and d: "d < getDim bursty"
  shows "burst_inv bursty solid (burst_face solid (cutme, boxes) (d, f))"
    and "length (snd (burst_face solid (cutme, boxes) (d, f))) \<le> Suc (length boxes)"
    and "\<forall>i < getDim bursty. lower cutme ! i = lower solid ! i \<longrightarrow>
           lower (fst (burst_face solid (cutme, boxes) (d, f))) ! i = lower solid ! i"
    and "\<forall>i < getDim bursty. upper cutme ! i = upper solid ! i \<longrightarrow>
           upper (fst (burst_face solid (cutme, boxes) (d, f))) ! i = upper solid ! i"
    and "\<not> f \<longrightarrow> lower (fst (burst_face solid (cutme, boxes) (d, f))) ! d = lower solid ! d"
    and "f \<longrightarrow> upper (fst (burst_face solid (cutme, boxes) (d, f))) ! d = upper solid ! d"
proof -
  let ?n = "getDim bursty"
  from inv have wf: "wf_box cutme" and dim: "getDim cutme = ?n"
    and co: "contains_box cutme solid"
    and pa: "partitions (cutme # boxes) (cells bursty)"
    by (simp_all add: burst_inv_def)
  from co wf dim have wfs: "wf_box solid" and dims: "getDim solid = ?n"
    and cn: "\<And>i. i < ?n \<Longrightarrow> lower cutme ! i \<le> lower solid ! i \<and> upper solid ! i \<le> upper cutme ! i"
    by (simp_all add: contains_box_nth)
  from ne wfs dims have nn: "\<And>i. i < ?n \<Longrightarrow> lower solid ! i \<le> upper solid ! i"
    by (force simp: empty_box_nth)
  have len: "length (lower cutme) = ?n" "length (upper cutme) = ?n"
    using wf dim by (simp_all add: wf_box_def getDim_def)
  have d': "d < getDim cutme" using d dim by simp
  let ?st = "burst_face solid (cutme, boxes) (d, f)"
  have main: "burst_inv bursty solid ?st \<and> length (snd ?st) \<le> Suc (length boxes) \<and>
      (\<forall>i < ?n. lower cutme ! i = lower solid ! i \<longrightarrow> lower (fst ?st) ! i = lower solid ! i) \<and>
      (\<forall>i < ?n. upper cutme ! i = upper solid ! i \<longrightarrow> upper (fst ?st) ! i = upper solid ! i) \<and>
      (\<not> f \<longrightarrow> lower (fst ?st) ! d = lower solid ! d) \<and>
      (f \<longrightarrow> upper (fst ?st) ! d = upper solid ! d)"
  proof (cases f)
    case True
    show ?thesis
    proof (cases "upper solid ! d < upper cutme ! d")
      case cut: True
      let ?v = "upper solid ! d + 1"
      let ?c = "slice_below cutme d ?v"
      let ?r = "slice_from cutme d ?v"
      have st: "?st = (?c, boxes @ [?r])" using True cut by simp
      have lo: "lower cutme ! d \<le> ?v" using cn [OF d] nn [OF d] by simp
      have hi: "?v \<le> upper cutme ! d + 1" using cut by simp
      note sl = cells_slices [OF wf d' lo hi]
      have wfc: "wf_box ?c" and dimc: "getDim ?c = ?n" using wf_slice [OF wf] dim by simp_all
      have "contains_box ?c solid"
        using cn wfs dims dimc len by (simp add: contains_box_nth [OF wfc] slice_nth)
      moreover have "partitions (?c # boxes @ [?r]) (cells bursty)"
        by (rule partitions_split [OF pa sl])
      ultimately have "burst_inv bursty solid (?c, boxes @ [?r])"
        using wfc dimc by (simp add: burst_inv_def)
      then show ?thesis unfolding st using True d len by (simp add: slice_nth)
    next
      case False
      with True have st: "?st = (cutme, boxes)" by simp
      from False cn [OF d] have "upper cutme ! d = upper solid ! d" by simp
      with inv True show ?thesis unfolding st by simp
    qed
  next
    case False
    show ?thesis
    proof (cases "lower cutme ! d < lower solid ! d")
      case cut: True
      let ?v = "lower solid ! d"
      let ?c = "slice_from cutme d ?v"
      let ?r = "slice_below cutme d ?v"
      have st: "?st = (?c, boxes @ [?r])" using False cut by simp
      have lo: "lower cutme ! d \<le> ?v" using cut by simp
      have hi: "?v \<le> upper cutme ! d + 1" using cn [OF d] nn [OF d] by simp
      note sl = cells_slices [OF wf d' lo hi]
      have sl': "cells ?c \<union> cells ?r = cells cutme" "cells ?c \<inter> cells ?r = {}"
        using sl by blast+
      have wfc: "wf_box ?c" and dimc: "getDim ?c = ?n" using wf_slice [OF wf] dim by simp_all
      have "contains_box ?c solid"
        using cn wfs dims dimc len by (simp add: contains_box_nth [OF wfc] slice_nth)
      moreover have "partitions (?c # boxes @ [?r]) (cells bursty)"
        by (rule partitions_split [OF pa sl'])
      ultimately have "burst_inv bursty solid (?c, boxes @ [?r])"
        using wfc dimc by (simp add: burst_inv_def)
      then show ?thesis unfolding st using False d len by (simp add: slice_nth)
    next
      case nocut: False
      with False have st: "?st = (cutme, boxes)" by simp
      from nocut cn [OF d] have "lower cutme ! d = lower solid ! d" by simp
      with inv False show ?thesis unfolding st by simp
    qed
  qed
  then show "burst_inv bursty solid ?st"
    and "length (snd ?st) \<le> Suc (length boxes)"
    and "\<forall>i < ?n. lower cutme ! i = lower solid ! i \<longrightarrow> lower (fst ?st) ! i = lower solid ! i"
    and "\<forall>i < ?n. upper cutme ! i = upper solid ! i \<longrightarrow> upper (fst ?st) ! i = upper solid ! i"
    and "\<not> f \<longrightarrow> lower (fst ?st) ! d = lower solid ! d"
    and "f \<longrightarrow> upper (fst ?st) ! d = upper solid ! d"
    by blast+
qed

lemma burst_fold:
  assumes "burst_inv bursty solid st" "\<not> empty_box solid" "\<forall>f \<in> set fs. fst f < getDim bursty"
  shows "burst_inv bursty solid (foldl (burst_face solid) st fs) \<and>
     length (snd (foldl (burst_face solid) st fs)) \<le> length (snd st) + length fs \<and>
     (\<forall>i < getDim bursty. lower (fst st) ! i = lower solid ! i \<or> (i, False) \<in> set fs \<longrightarrow>
        lower (fst (foldl (burst_face solid) st fs)) ! i = lower solid ! i) \<and>
     (\<forall>i < getDim bursty. upper (fst st) ! i = upper solid ! i \<or> (i, True) \<in> set fs \<longrightarrow>
        upper (fst (foldl (burst_face solid) st fs)) ! i = upper solid ! i)"
  using assms
proof (induction fs arbitrary: st)
  case Nil
  then show ?case by simp
next
  case (Cons face fs)
  obtain cutme boxes where st: "st = (cutme, boxes)" by (cases st)
  obtain d f where face: "face = (d, f)" by (cases face)
  let ?st1 = "burst_face solid (cutme, boxes) (d, f)"
  from Cons.prems(3) face have d: "d < getDim bursty" by simp
  from Cons.prems(1) st have inv: "burst_inv bursty solid (cutme, boxes)" by simp
  note step = burst_face_step [OF inv Cons.prems(2) d, of f]
  from Cons.prems(3) have rest: "\<forall>f \<in> set fs. fst f < getDim bursty" by simp
  note IH = Cons.IH [OF step(1) Cons.prems(2) rest]
  have fold: "foldl (burst_face solid) st (face # fs) = foldl (burst_face solid) ?st1 fs"
    by (simp add: st face)
  have lo: "lower (fst (foldl (burst_face solid) ?st1 fs)) ! i = lower solid ! i"
    if "i < getDim bursty" "lower (fst st) ! i = lower solid ! i \<or> (i, False) \<in> set (face # fs)"
    for i
  proof -
    from that(2) consider "lower cutme ! i = lower solid ! i" | "i = d \<and> \<not> f"
      | "(i, False) \<in> set fs"
      by (auto simp: st face)
    then have "lower (fst ?st1) ! i = lower solid ! i \<or> (i, False) \<in> set fs"
    proof cases
      case 1
      with step(3) that(1) show ?thesis by simp
    next
      case 2
      with step(5) show ?thesis by simp
    next
      case 3
      then show ?thesis by simp
    qed
    with IH that(1) show ?thesis by blast
  qed
  have up: "upper (fst (foldl (burst_face solid) ?st1 fs)) ! i = upper solid ! i"
    if "i < getDim bursty" "upper (fst st) ! i = upper solid ! i \<or> (i, True) \<in> set (face # fs)"
    for i
  proof -
    from that(2) consider "upper cutme ! i = upper solid ! i" | "i = d \<and> f"
      | "(i, True) \<in> set fs"
      by (auto simp: st face)
    then have "upper (fst ?st1) ! i = upper solid ! i \<or> (i, True) \<in> set fs"
    proof cases
      case 1
      with step(4) that(1) show ?thesis by simp
    next
      case 2
      with step(6) show ?thesis by simp
    next
      case 3
      then show ?thesis by simp
    qed
    with IH that(1) show ?thesis by blast
  qed
  have "length (snd (foldl (burst_face solid) ?st1 fs)) \<le> length (snd st) + length (face # fs)"
    using IH step(2) by (simp add: st)
  with IH lo up show ?case unfolding fold by blast
qed

lemma solid_faces_props:
  "length (solid_faces n) = 2 * n"
  "\<forall>f \<in> set (solid_faces n). fst f < n"
  "i < n \<Longrightarrow> (i, False) \<in> set (solid_faces n) \<and> (i, True) \<in> set (solid_faces n)"
  by (induction n) (auto simp: solid_faces_def)

lemma cells_same_corners: "lower a = lower b \<Longrightarrow> upper a = upper b \<Longrightarrow> cells a = cells b"
  by (simp add: cells_def)

lemma partitions_self: "partitions [b] (cells b)"
  by (simp add: partitions_def)

lemma burstBox_partitions:
  assumes "wf_box bursty" "\<not> empty_box solid" "contains_box bursty solid"
  shows "length (burstBox bursty solid) \<le> 2 * getDim bursty \<and>
         partitions (solid # burstBox bursty solid) (cells bursty)"
proof -
  let ?n = "getDim bursty"
  let ?st = "foldl (burst_face solid) (bursty, []) (solid_faces ?n)"
  have inv0: "burst_inv bursty solid (bursty, [])"
    using assms(1,3) by (simp add: burst_inv_def partitions_self)
  note f = burst_fold [OF inv0 assms(2) solid_faces_props(2)]
  from f have inv: "burst_inv bursty solid ?st"
    and len: "length (snd ?st) \<le> 2 * ?n"
    and lo: "\<And>i. i < ?n \<Longrightarrow> lower (fst ?st) ! i = lower solid ! i"
    and up: "\<And>i. i < ?n \<Longrightarrow> upper (fst ?st) ! i = upper solid ! i"
    by (simp_all add: solid_faces_props)
  from inv have wf: "wf_box (fst ?st)" and dim: "getDim (fst ?st) = ?n"
    and co: "contains_box (fst ?st) solid"
    and pa: "partitions (fst ?st # snd ?st) (cells bursty)"
    by (simp_all add: burst_inv_def)
  from co wf dim have wfs: "wf_box solid" and dims: "getDim solid = ?n"
    by (simp_all add: contains_box_nth)
  have "lower solid = lower (fst ?st)"
    using lo dim dims by (intro nth_equalityI) (simp_all add: getDim_def)
  moreover have "upper solid = upper (fst ?st)"
    using up dim dims wf wfs by (intro nth_equalityI) (simp_all add: getDim_def wf_box_def)
  ultimately have "cells solid = cells (fst ?st)" by (rule cells_same_corners)
  with pa have "partitions (solid # snd ?st) (cells bursty)" by (rule partitions_same_cells)
  with len show ?thesis by (simp add: burstBox_def)
qed

text \<open>
  C6. For every box \<open>bursty\<close> and every box \<open>solid\<close> with cells that \<open>bursty\<close>
  contains, \<open>burstBox\<close> produces at most 2d boxes; together with \<open>solid\<close> they tile
  \<open>bursty\<close>: every cell of \<open>bursty\<close> lies in exactly one of them, and none of them has a
  cell outside \<open>bursty\<close>.
\<close>

theorem burstBox_covers:
  assumes "wf_box bursty" "\<not> empty_box solid" "contains_box bursty solid"
  shows "length (burstBox bursty solid) \<le> 2 * getDim bursty \<and>
         tiles (solid # burstBox bursty solid) bursty"
  using burstBox_partitions [OF assms] partitions_tiles [of "solid # burstBox bursty solid" bursty]
  by simp

text \<open>
  The burst of the 5 by 4 box around the 2 by 3 box: a slab below and a slab above on
  axis 0, then a slab below on axis 1; the solid box reaches the upper face on axis 1.
\<close>

lemma ex_burst:
  "burstBox ex_bursty ex_solid =
     [make_box [0, 0] [0, 3] 0 7, make_box [3, 0] [4, 3] 0 7, make_box [1, 0] [2, 0] 0 7]"
  by (simp add: burstBox_def solid_faces_def getDim_def ex_bursty_def ex_solid_def make_box_def
      upt_rec slice_below_def slice_from_def)

theorem burstBox_covers_witness:
  "wf_box ex_bursty \<and> \<not> empty_box ex_solid \<and> contains_box ex_bursty ex_solid \<and>
   burstBox ex_bursty ex_solid =
     [make_box [0, 0] [0, 3] 0 7, make_box [3, 0] [4, 3] 0 7, make_box [1, 0] [2, 0] 0 7] \<and>
   tiles [ex_solid, make_box [0, 0] [0, 3] 0 7, make_box [3, 0] [4, 3] 0 7,
          make_box [1, 0] [2, 0] 0 7] ex_bursty"
proof -
  have h: "wf_box ex_bursty" "\<not> empty_box ex_solid" "contains_box ex_bursty ex_solid"
    by (simp_all add: ex_bursty_def ex_solid_def make_box_def wf_box_def empty_box_def
        contains_box_def)
  from burstBox_covers [OF h] h show ?thesis by (simp add: ex_burst)
qed

text \<open>
  For a box with cells, the corner-by-corner containment assumed above is containment of
  the cells.
\<close>

lemma contains_box_cells:
  assumes "wf_box a" "wf_box b" "getDim b = getDim a" "\<not> empty_box b"
  shows "contains_box a b \<longleftrightarrow> cells b \<subseteq> cells a"
proof
  assume "contains_box a b"
  then have "\<forall>i < getDim a. lower a ! i \<le> lower b ! i \<and> upper b ! i \<le> upper a ! i"
    using assms(1) by (simp add: contains_box_nth)
  then show "cells b \<subseteq> cells a"
    using assms(3) by (fastforce simp: cells_nth [OF assms(1)] cells_nth [OF assms(2)])
next
  assume sub: "cells b \<subseteq> cells a"
  from assms(2,4) have ne: "\<forall>i < getDim b. lower b ! i \<le> upper b ! i"
    by (force simp: empty_box_nth)
  have "lower b \<in> cells b" "upper b \<in> cells b"
    using ne assms(2) by (simp_all add: cells_nth [OF assms(2)] getDim_def wf_box_def)
  with sub have "lower b \<in> cells a" "upper b \<in> cells a" by blast+
  then show "contains_box a b"
    using assms(2,3) by (simp add: cells_nth [OF assms(1)] contains_box_nth [OF assms(1)])
qed

subsection \<open>Breaking a load off a box\<close>

lemma lowest_penalty_mem: "lowest_penalty pen cs = Some c \<Longrightarrow> c \<in> set cs"
  by (induction cs arbitrary: c) (auto split: option.splits if_splits)

lemma partitions_pair:
  "cells a \<union> cells b = S \<Longrightarrow> cells a \<inter> cells b = {} \<Longrightarrow> partitions [a, b] S \<and> partitions [b, a] S"
  by (auto simp: partitions_def)

lemma planar_cut_tiles:
  assumes "wf_box box" "d < getDim box" "lower box ! d < c" "c \<le> upper box ! d"
  shows "tiles (fst (planar_cut box ideal_load d c) @ fst (snd (planar_cut box ideal_load d c))) box"
proof -
  have "lower box ! d \<le> c" "c \<le> upper box ! d + 1" using assms(3,4) by simp_all
  from partitions_pair [OF cells_slices [OF assms(1,2) this]]
  have "partitions [slice_below box d c, slice_from box d c] (cells box)"
    "partitions [slice_from box d c, slice_below box d c] (cells box)" by simp_all
  then show ?thesis by (simp add: planar_cut_def Let_def partitions_tiles)
qed

lemma planar_candidates_tile:
  assumes "wf_box box" "c \<in> set (planar_candidates p box ideal_load)"
  shows "tiles (fst c @ fst (snd c)) box"
proof -
  from assms(2) obtain d pl where d: "d < getDim box" and pl: "pl \<in> set (cut_planes box d)"
    and c: "c = planar_cut box ideal_load d pl"
    by (auto simp: planar_candidates_def)
  from pl have "lower box ! d < pl" "pl \<le> upper box ! d" by (simp_all add: cut_planes_def)
  from planar_cut_tiles [OF assms(1) d this] c show ?thesis by simp
qed

lemma corner_box_props:
  assumes "wf_box box" "valid_chop p box corner e"
  shows "wf_box (corner_box box corner e)" "\<not> empty_box (corner_box box corner e)"
    "contains_box box (corner_box box corner e)"
proof -
  let ?c = "corner_box box corner e"
  let ?n = "getDim box"
  show wf: "wf_box ?c" by (simp add: wf_box_def corner_box_def)
  have dim: "getDim ?c = ?n" by (simp add: getDim_def corner_box_def)
  from assms(2) have e: "\<And>i. i < ?n \<Longrightarrow> 1 \<le> e ! i \<and> e ! i \<le> upper box ! i - lower box ! i + 1"
    by (simp add: valid_chop_def list_all_iff numberCells_def)
  have lo: "lower ?c ! i = (if corner ! i then upper box ! i - e ! i + 1 else lower box ! i)"
    and up: "upper ?c ! i = (if corner ! i then upper box ! i else lower box ! i + e ! i - 1)"
    if "i < ?n" for i
    using that by (simp_all add: corner_box_def)
  show "\<not> empty_box ?c"
  proof -
    have "\<not> upper ?c ! i < lower ?c ! i" if "i < ?n" for i
      using e [OF that] by (simp add: lo [OF that] up [OF that])
    then show ?thesis using dim by (simp add: empty_box_nth [OF wf])
  qed
  show "contains_box box ?c"
  proof -
    have "lower box ! i \<le> lower ?c ! i \<and> upper ?c ! i \<le> upper box ! i" if "i < ?n" for i
      using e [OF that] by (simp add: lo [OF that] up [OF that])
    then show ?thesis using wf dim by (simp add: contains_box_nth [OF assms(1)])
  qed
qed

lemma cubic_candidates_tile:
  assumes "wf_box box" "c \<in> set (cubic_candidates p box ideal_load)"
  shows "tiles (fst c @ fst (snd c)) box"
proof -
  from assms(2) obtain corner where c: "c \<in> set (corner_chop p box ideal_load corner)"
    by (auto simp: cubic_candidates_def)
  let ?e = "chop_size p box corner ideal_load"
  from c have v: "valid_chop p box corner ?e"
    and ceq: "c = ([corner_box box corner ?e], burstBox box (corner_box box corner ?e),
                   computeLoad (corner_box box corner ?e))"
    by (simp_all add: corner_chop_def Let_def split: if_splits)
  note pr = corner_box_props [OF assms(1) v]
  from burstBox_partitions [OF assms(1) pr(2,3)]
  have "partitions (corner_box box corner ?e # burstBox box (corner_box box corner ?e)) (cells box)"
    by simp
  then show ?thesis by (simp add: ceq partitions_tiles)
qed

lemma breakOffLoad_cases:
  assumes "breakOffLoad p box ideal_load low_load high_load = Some c"
  shows "in_band low_load high_load c \<and>
         (c \<in> set (planar_candidates p box ideal_load) \<or> c \<in> set (cubic_candidates p box ideal_load))"
proof -
  from assms have
    "breakOffLoad_planar p box ideal_load low_load high_load = Some c \<or>
     breakOffLoad_cubic p box ideal_load low_load high_load = Some c"
    by (auto simp: breakOffLoad_def split: option.splits if_splits)
  then show ?thesis
    by (auto simp: breakOffLoad_planar_def breakOffLoad_cubic_def dest!: lowest_penalty_mem)
qed

text \<open>
  C3. For every box and all bounds, whenever \<open>breakOffLoad\<close> returns true, the load
  broken off lies between \<open>low_load\<close> and \<open>high_load\<close>, and the boxes of \<open>breakoff\<close>
  and \<open>leftover\<close> together tile the box: every cell of the box lies in exactly one of
  them and none of them has a cell outside the box.
\<close>

theorem breakOffLoad_band_and_tiling:
  assumes "wf_box box"
    and "breakOffLoad p box ideal_load low_load high_load = Some (breakoff, leftover, brk_load)"
  shows "low_load \<le> brk_load \<and> brk_load \<le> high_load \<and> tiles (breakoff @ leftover) box"
proof -
  from breakOffLoad_cases [OF assms(2)]
  have band: "in_band low_load high_load (breakoff, leftover, brk_load)"
    and mem: "(breakoff, leftover, brk_load) \<in> set (planar_candidates p box ideal_load) \<or>
              (breakoff, leftover, brk_load) \<in> set (cubic_candidates p box ideal_load)"
    by simp_all
  from mem have "tiles (breakoff @ leftover) box"
    using planar_candidates_tile [OF assms(1), of "(breakoff, leftover, brk_load)" p ideal_load]
      cubic_candidates_tile [OF assms(1), of "(breakoff, leftover, brk_load)" p ideal_load]
    by auto
  with band show ?thesis by (simp add: in_band_def)
qed

text \<open>
  Breaking 7 cells, or at least 5, off the 8 by 4 box: no planar cut gives a load in the
  band, the chop of 3 by 2 cells at the lower corner does, and the leftover is its burst.
\<close>

lemma ex_break: "breakOffLoad ex_breaker ex_wide 7 5 7 =
   Some ([make_box [0, 0] [2, 1] 0 1],
         [make_box [3, 0] [7, 3] 0 1, make_box [0, 2] [2, 3] 0 1], 6)"
  by code_simp

theorem breakOffLoad_band_and_tiling_witness:
  "wf_box ex_wide \<and>
   breakOffLoad ex_breaker ex_wide 7 5 7 =
     Some ([make_box [0, 0] [2, 1] 0 1],
           [make_box [3, 0] [7, 3] 0 1, make_box [0, 2] [2, 3] 0 1], 6) \<and>
   (5 :: real) \<le> 6 \<and> (6 :: real) \<le> 7 \<and>
   tiles [make_box [0, 0] [2, 1] 0 1, make_box [3, 0] [7, 3] 0 1, make_box [0, 2] [2, 3] 0 1]
     ex_wide"
proof -
  have wf: "wf_box ex_wide" by (simp add: ex_wide_def make_box_def wf_box_def)
  from breakOffLoad_band_and_tiling [OF wf ex_break] wf ex_break show ?thesis by simp
qed


subsection \<open>Erase by key\<close>

lemma equiv_filter_eq:
  "(\<lambda>e. \<not> BoxInTransitMoreLoad e k \<and> \<not> BoxInTransitMoreLoad k e) = (\<lambda>e. equiv_transit e k)"
  "(\<lambda>e. BoxInTransitMoreLoad e k \<or> BoxInTransitMoreLoad k e) = (\<lambda>e. \<not> equiv_transit e k)"
  by (auto simp: equiv_transit_def fun_eq_iff)

text \<open>
  Erasing by key from a set in comparator order removes the elements equivalent to the
  key and subtracts the load of the key once if there was any.
\<close>

lemma erase_key_ts_equiv:
  assumes "sorted_wrt BoxInTransitMoreLoad (d_set s)"
    and "transp_on (insert k (set (d_set s))) BoxInTransitMoreLoad"
  shows "erase_key_ts s k =
     (\<lparr>d_set = filter (\<lambda>e. \<not> equiv_transit e k) (d_set s),
       d_sumload = (if filter (\<lambda>e. equiv_transit e k) (d_set s) \<noteq> []
                    then d_sumload s - d_boxload k else d_sumload s)\<rparr>,
      length (filter (\<lambda>e. equiv_transit e k) (d_set s)))"
  using set_erase_key_equiv [OF assms MoreLoad_irrefl]
  by (simp add: erase_key_ts_def equiv_filter_eq)

lemma filter_single:
  assumes "filter P xs = [e]"
  shows "\<exists>ys zs. xs = ys @ e # zs \<and> filter (\<lambda>x. \<not> P x) xs = ys @ zs"
proof -
  from assms obtain us vs where xs: "xs = us @ e # vs" and us: "\<forall>u \<in> set us. \<not> P u"
    and e: "P e" and vs: "[] = filter P vs"
    by (auto simp: filter_eq_Cons_iff)
  from vs [symmetric] have "\<forall>v \<in> set vs. \<not> P v" by (simp add: filter_empty_conv)
  with us e xs have "xs = us @ e # vs \<and> filter (\<lambda>x. \<not> P x) xs = us @ vs" by simp
  then show ?thesis by blast
qed

lemma equiv_uniform_iff:
  "uniform_load a \<Longrightarrow> uniform_load b \<Longrightarrow>
     equiv_transit a b \<longleftrightarrow>
       size_box (d_box a) = size_box (d_box b) \<and> getBoxId (d_box a) = getBoxId (d_box b)"
  using BoxId_less_total [of "getBoxId (d_box a)" "getBoxId (d_box b)"]
  by (auto simp: equiv_transit_def MoreLoad_uniform BoxId_less_irrefl)

text \<open>
  Under the uniform load model a set in comparator order holds at most one element
  equivalent to a key, and that element carries the load of the key.
\<close>

lemma equivalents_uniform:
  assumes "sorted_wrt BoxInTransitMoreLoad xs" "\<forall>e \<in> set xs. uniform_load e" "uniform_load k"
  shows "filter (\<lambda>e. equiv_transit e k) xs = [] \<or>
         (\<exists>e. filter (\<lambda>e. equiv_transit e k) xs = [e] \<and> d_boxload e = d_boxload k)"
  using assms(1,2)
proof (induction xs)
  case Nil
  then show ?case by simp
next
  case (Cons e es)
  from Cons.prems have so: "sorted_wrt BoxInTransitMoreLoad es"
    and un: "\<forall>e \<in> set es. uniform_load e" and ue: "uniform_load e" by simp_all
  show ?case
  proof (cases "equiv_transit e k")
    case True
    have "\<not> equiv_transit e' k" if "e' \<in> set es" for e'
    proof
      assume eq: "equiv_transit e' k"
      from that un have ue': "uniform_load e'" by simp
      from that Cons.prems(1) have "BoxInTransitMoreLoad e e'" by simp
      moreover from True eq have "size_box (d_box e) = size_box (d_box e')"
        "getBoxId (d_box e) = getBoxId (d_box e')"
        by (simp_all add: equiv_uniform_iff [OF ue assms(3)] equiv_uniform_iff [OF ue' assms(3)])
      ultimately show False by (simp add: MoreLoad_uniform [OF ue ue'] BoxId_less_irrefl)
    qed
    then have "filter (\<lambda>e. equiv_transit e k) es = []" by (simp add: filter_empty_conv)
    with True equiv_uniform_same_load [OF True ue assms(3)] show ?thesis by simp
  next
    case False
    with Cons.IH [OF so un] show ?thesis by simp
  qed
qed

lemma sum_ok_erase_key_uniform:
  assumes "sum_ok s" "sorted_wrt BoxInTransitMoreLoad (d_set s)"
    and "\<forall>e \<in> set (d_set s). uniform_load e" "uniform_load k"
  shows "sum_ok (fst (erase_key_ts s k))"
proof -
  have "\<forall>x \<in> insert k (set (d_set s)). uniform_load x" using assms(3,4) by simp
  then have tr: "transp_on (insert k (set (d_set s))) BoxInTransitMoreLoad"
    by (rule MoreLoad_transp_uniform)
  note er = erase_key_ts_equiv [OF assms(2) tr]
  note sp = sum_list_filter_split [of d_boxload "d_set s" "\<lambda>e. equiv_transit e k"]
  from equivalents_uniform [OF assms(2,3,4)] show ?thesis
  proof
    assume "filter (\<lambda>e. equiv_transit e k) (d_set s) = []"
    with er sp assms(1) show ?thesis
      by (simp add: sum_ok_def getSumLoad_def computeLoad_ts_sum)
  next
    assume "\<exists>e. filter (\<lambda>e. equiv_transit e k) (d_set s) = [e] \<and> d_boxload e = d_boxload k"
    then obtain e where "filter (\<lambda>e. equiv_transit e k) (d_set s) = [e]"
      "d_boxload e = d_boxload k" by blast
    with er sp assms(1) show ?thesis
      by (simp add: sum_ok_def getSumLoad_def computeLoad_ts_sum)
  qed
qed


text \<open>
  C10. \<open>erase(key)\<close> on a set in comparator order (the comparator transitive on its
  elements and the key, as \<open>std::set\<close> requires) whose cached sum is right: the elements
  equivalent to the key are removed and their number is returned; the cached sum goes down
  by the load of the key, not by the loads of the elements removed. When no element is
  equivalent to the key, the set and its cached sum are unchanged. When exactly one
  element \<open>e\<close> is equivalent to the key, it is removed, and the cached sum is right
  afterwards iff the key and \<open>e\<close> carry the same load, which they do when both follow the
  uniform load model.
\<close>

theorem erase_key_cached_sum:
  assumes "getSumLoad s = computeLoad_ts s"
    and "sorted_wrt BoxInTransitMoreLoad (d_set s)"
    and "transp_on (insert k (set (d_set s))) BoxInTransitMoreLoad"
  shows "snd (erase_key_ts s k) = length (filter (\<lambda>e. equiv_transit e k) (d_set s)) \<and>
         d_set (fst (erase_key_ts s k)) = filter (\<lambda>e. \<not> equiv_transit e k) (d_set s) \<and>
         getSumLoad (fst (erase_key_ts s k)) =
           (if snd (erase_key_ts s k) \<noteq> 0 then getSumLoad s - d_boxload k else getSumLoad s) \<and>
         computeLoad_ts (fst (erase_key_ts s k)) =
           computeLoad_ts s - sum_list (map d_boxload (filter (\<lambda>e. equiv_transit e k) (d_set s))) \<and>
         ((\<forall>e \<in> set (d_set s). \<not> equiv_transit e k) \<longrightarrow> erase_key_ts s k = (s, 0)) \<and>
         (\<forall>e. filter (\<lambda>e. equiv_transit e k) (d_set s) = [e] \<longrightarrow>
            snd (erase_key_ts s k) = 1 \<and>
            (\<exists>ys zs. d_set s = ys @ e # zs \<and> d_set (fst (erase_key_ts s k)) = ys @ zs) \<and>
            getSumLoad (fst (erase_key_ts s k)) = getSumLoad s - d_boxload k \<and>
            computeLoad_ts (fst (erase_key_ts s k)) = computeLoad_ts s - d_boxload e \<and>
            (getSumLoad (fst (erase_key_ts s k)) = computeLoad_ts (fst (erase_key_ts s k))
               \<longleftrightarrow> d_boxload k = d_boxload e) \<and>
            (uniform_load k \<and> uniform_load e \<longrightarrow> d_boxload k = d_boxload e))"
proof -
  let ?eq = "filter (\<lambda>e. equiv_transit e k) (d_set s)"
  note er = erase_key_ts_equiv [OF assms(2,3)]
  note sp = sum_list_filter_split [of d_boxload "d_set s" "\<lambda>e. equiv_transit e k"]
  from er have n: "snd (erase_key_ts s k) = length ?eq"
    and c: "d_set (fst (erase_key_ts s k)) = filter (\<lambda>e. \<not> equiv_transit e k) (d_set s)"
    and g: "getSumLoad (fst (erase_key_ts s k)) =
           (if snd (erase_key_ts s k) \<noteq> 0 then getSumLoad s - d_boxload k else getSumLoad s)"
    by (simp_all add: getSumLoad_def)
  from c sp have l: "computeLoad_ts (fst (erase_key_ts s k)) =
      computeLoad_ts s - sum_list (map d_boxload ?eq)"
    by (simp add: computeLoad_ts_sum)
  have none: "erase_key_ts s k = (s, 0)" if "\<forall>e \<in> set (d_set s). \<not> equiv_transit e k"
  proof -
    from that have "?eq = []" "filter (\<lambda>e. \<not> equiv_transit e k) (d_set s) = d_set s"
      by (simp_all add: filter_empty_conv)
    with er show ?thesis by simp
  qed
  have one: "snd (erase_key_ts s k) = 1 \<and>
            (\<exists>ys zs. d_set s = ys @ e # zs \<and> d_set (fst (erase_key_ts s k)) = ys @ zs) \<and>
            getSumLoad (fst (erase_key_ts s k)) = getSumLoad s - d_boxload k \<and>
            computeLoad_ts (fst (erase_key_ts s k)) = computeLoad_ts s - d_boxload e \<and>
            (getSumLoad (fst (erase_key_ts s k)) = computeLoad_ts (fst (erase_key_ts s k))
               \<longleftrightarrow> d_boxload k = d_boxload e) \<and>
            (uniform_load k \<and> uniform_load e \<longrightarrow> d_boxload k = d_boxload e)"
    if e: "?eq = [e]" for e
  proof -
    from e have "e \<in> set ?eq" by simp
    then have eq: "equiv_transit e k" by simp
    from filter_single [OF e] c
    have dec: "\<exists>ys zs. d_set s = ys @ e # zs \<and> d_set (fst (erase_key_ts s k)) = ys @ zs"
      by simp
    from n e have n1: "snd (erase_key_ts s k) = 1" by simp
    with g have g1: "getSumLoad (fst (erase_key_ts s k)) = getSumLoad s - d_boxload k" by simp
    from l e have l1: "computeLoad_ts (fst (erase_key_ts s k)) = computeLoad_ts s - d_boxload e"
      by simp
    from g1 l1 assms(1)
    have iff: "getSumLoad (fst (erase_key_ts s k)) = computeLoad_ts (fst (erase_key_ts s k))
               \<longleftrightarrow> d_boxload k = d_boxload e" by auto
    have "d_boxload k = d_boxload e" if "uniform_load k \<and> uniform_load e"
      using equiv_uniform_same_load [OF eq] that by simp
    with n1 dec g1 l1 iff show ?thesis by blast
  qed
  from n c g l none one show ?thesis by blast
qed

lemma ex_more_cmp:
  "\<not> BoxInTransitMoreLoad ex_k ex_k" "\<not> BoxInTransitMoreLoad ex_b ex_b"
  "\<not> BoxInTransitMoreLoad ex_k ex_b" "BoxInTransitMoreLoad ex_b ex_k"
  "BoxInTransitMoreLoad ex_e1 ex_e2" "\<not> BoxInTransitMoreLoad ex_e2 ex_e1"
  "\<not> BoxInTransitMoreLoad ex_e1 ex_k3" "\<not> BoxInTransitMoreLoad ex_k3 ex_e1"
  "\<not> BoxInTransitMoreLoad ex_e2 ex_k3" "\<not> BoxInTransitMoreLoad ex_k3 ex_e2"
  "\<not> BoxInTransitMoreLoad ex_e1 ex_e1" "\<not> BoxInTransitMoreLoad ex_e2 ex_e2"
  "\<not> BoxInTransitMoreLoad ex_k3 ex_k3"
  by (simp_all add: ex_defs MoreLoad_make size_box_make_box)

lemma ex_more_loads: "d_boxload ex_e1 = 1" "d_boxload ex_e2 = 1" "d_boxload ex_k3 = 1"
  by (simp_all add: ex_defs make_transit_def)

text \<open>
  Erasing by the key \<open>ex_k\<close> (load 3) removes \<open>ex_a\<close> (load 5) and leaves the cached sum
  at 2 over an empty set; erasing by \<open>ex_b\<close>, which matches nothing, changes nothing.
\<close>

theorem erase_key_cached_sum_witness:
  "getSumLoad \<lparr>d_set = [ex_a], d_sumload = 5\<rparr> = computeLoad_ts \<lparr>d_set = [ex_a], d_sumload = 5\<rparr> \<and>
   sorted_wrt BoxInTransitMoreLoad (d_set \<lparr>d_set = [ex_a], d_sumload = 5\<rparr>) \<and>
   transp_on (insert ex_k (set (d_set \<lparr>d_set = [ex_a], d_sumload = 5\<rparr>))) BoxInTransitMoreLoad \<and>
   filter (\<lambda>e. equiv_transit e ex_k) (d_set \<lparr>d_set = [ex_a], d_sumload = 5\<rparr>) = [ex_a] \<and>
   erase_key_ts \<lparr>d_set = [ex_a], d_sumload = 5\<rparr> ex_k = (\<lparr>d_set = [], d_sumload = 2\<rparr>, 1) \<and>
   getSumLoad (fst (erase_key_ts \<lparr>d_set = [ex_a], d_sumload = 5\<rparr> ex_k)) = 2 \<and>
   computeLoad_ts (fst (erase_key_ts \<lparr>d_set = [ex_a], d_sumload = 5\<rparr> ex_k)) = 0 \<and>
   d_boxload ex_k \<noteq> d_boxload ex_a \<and>
   transp_on (insert ex_b (set (d_set \<lparr>d_set = [ex_a], d_sumload = 5\<rparr>))) BoxInTransitMoreLoad \<and>
   \<not> equiv_transit ex_a ex_b \<and>
   erase_key_ts \<lparr>d_set = [ex_a], d_sumload = 5\<rparr> ex_b = (\<lparr>d_set = [ex_a], d_sumload = 5\<rparr>, 0)"
proof -
  let ?s = "\<lparr>d_set = [ex_a], d_sumload = 5\<rparr>"
  have inv: "getSumLoad ?s = computeLoad_ts ?s"
    by (simp add: getSumLoad_def computeLoad_ts_def ex_loads)
  have so: "sorted_wrt BoxInTransitMoreLoad (d_set ?s)" by simp
  have trk: "transp_on (insert ex_k (set (d_set ?s))) BoxInTransitMoreLoad"
    unfolding transp_on_def by (simp add: ex_cmp ex_more_cmp)
  have trb: "transp_on (insert ex_b (set (d_set ?s))) BoxInTransitMoreLoad"
    unfolding transp_on_def by (simp add: ex_cmp ex_more_cmp)
  have f: "filter (\<lambda>e. equiv_transit e ex_k) (d_set ?s) = [ex_a]"
    by (simp add: equiv_transit_def ex_cmp)
  have nb: "\<not> equiv_transit ex_a ex_b" by (simp add: equiv_transit_def ex_cmp)
  have ek: "erase_key_ts ?s ex_k = (\<lparr>d_set = [], d_sumload = 2\<rparr>, 1)"
    by (simp add: erase_key_ts_def set_erase_key_def set_lower_bound_def set_upper_bound_def
        ex_cmp ex_loads)
  have one: "snd (erase_key_ts ?s ex_k) = 1 \<and>
      getSumLoad (fst (erase_key_ts ?s ex_k)) = getSumLoad ?s - d_boxload ex_k \<and>
      computeLoad_ts (fst (erase_key_ts ?s ex_k)) = computeLoad_ts ?s - d_boxload ex_a"
    using erase_key_cached_sum [OF inv so trk] f by blast
  have "(\<forall>e \<in> set (d_set ?s). \<not> equiv_transit e ex_b) \<longrightarrow> erase_key_ts ?s ex_b = (?s, 0)"
    using erase_key_cached_sum [OF inv so trb] by blast
  with nb have none: "erase_key_ts ?s ex_b = (?s, 0)" by simp
  from one have vals: "getSumLoad (fst (erase_key_ts ?s ex_k)) = 2"
    "computeLoad_ts (fst (erase_key_ts ?s ex_k)) = 0"
    by (simp_all add: ex_loads getSumLoad_def computeLoad_ts_sum)
  have ne: "d_boxload ex_k \<noteq> d_boxload ex_a" by (simp add: ex_loads)
  from inv so trk trb f nb ek vals ne none show ?thesis by blast
qed

text \<open>
  Where several elements are equivalent to the key, all of them go and the load of the key
  is subtracted once: \<open>ex_k3\<close> is equivalent to both \<open>ex_e1\<close> and \<open>ex_e2\<close>.
\<close>

lemma ex_erase_equal_range:
  "erase_key_ts \<lparr>d_set = [ex_e1, ex_e2], d_sumload = 2\<rparr> ex_k3 = (\<lparr>d_set = [], d_sumload = 1\<rparr>, 2)"
  by (simp add: erase_key_ts_def set_erase_key_def set_lower_bound_def set_upper_bound_def
      ex_more_cmp ex_more_loads)


subsection \<open>The sets a run reaches are in comparator order\<close>

lemma set_insert_range_sorted:
  assumes "sorted_wrt cmp xs" "transp_on (set xs \<union> set ys) cmp"
  shows "sorted_wrt cmp (set_insert_range cmp xs ys) \<and>
         set (set_insert_range cmp xs ys) \<subseteq> set xs \<union> set ys"
  using assms
proof (induction ys arbitrary: xs)
  case Nil
  then show ?case by simp
next
  case (Cons y ys)
  let ?xs' = "fst (set_insert cmp xs y)"
  have tr: "transp_on (insert y (set xs)) cmp"
    using Cons.prems(2) by (rule transp_on_subset) auto
  have so': "sorted_wrt cmp ?xs'" by (rule set_insert_sorted [OF Cons.prems(1) tr])
  have st: "set ?xs' \<subseteq> insert y (set xs)" by (auto simp: set_insert_set)
  have tr': "transp_on (set ?xs' \<union> set ys) cmp"
    using Cons.prems(2) by (rule transp_on_subset) (use st in auto)
  from Cons.IH [OF so' tr'] st show ?case by auto
qed

lemma ordered_in_apply_op:
  assumes tr: "transp_on U BoxInTransitMoreLoad"
    and rec: "op_records x \<subseteq> U"
    and o1: "ordered_in U (fst st)" and o2: "ordered_in U (snd st)"
    and ap: "apply_op st x = Inr st'"
  shows "ordered_in U (fst st') \<and> ordered_in U (snd st')"
proof (cases st)
  case (Pair s other)
  from o1 Pair have so: "sorted_wrt BoxInTransitMoreLoad (d_set s)" and su: "set (d_set s) \<subseteq> U"
    by (simp_all add: ordered_in_def)
  show ?thesis
  proof (cases x)
    case (Insert y)
    from rec Insert su have "insert y (set (d_set s)) \<subseteq> U" by simp
    then have t: "transp_on (insert y (set (d_set s))) BoxInTransitMoreLoad"
      by (rule transp_on_subset [OF tr])
    have "set (fst (set_insert BoxInTransitMoreLoad (d_set s) y)) \<subseteq> U"
      using rec Insert su by (simp add: set_insert_set)
    with set_insert_sorted [OF so t] ap o2 Pair Insert show ?thesis
      by (auto simp: ordered_in_def insert_ts_def case_prod_beta)
  next
    case (InsertRange ys)
    from rec InsertRange su have sub: "set (d_set s) \<union> set ys \<subseteq> U" by simp
    then have t: "transp_on (set (d_set s) \<union> set ys) BoxInTransitMoreLoad"
      by (rule transp_on_subset [OF tr])
    from set_insert_range_sorted [OF so t] sub ap o2 Pair InsertRange show ?thesis
      by (auto simp: ordered_in_def insert_range_ts_eq split: if_splits)
  next
    case (EraseIter pos)
    with ap Pair have pos: "pos < length (d_set s)"
      and st': "st' = (erase_pos_ts s pos, other)"
      by (auto simp: size_ts_def split: if_splits)
    from pos have "d_set s = take pos (d_set s) @ d_set s ! pos # drop (Suc pos) (d_set s)"
      by (simp add: id_take_nth_drop)
    with so have "sorted_wrt BoxInTransitMoreLoad
        (take pos (d_set s) @ d_set s ! pos # drop (Suc pos) (d_set s))" by simp
    then have "sorted_wrt BoxInTransitMoreLoad (set_erase_pos (d_set s) pos)"
      unfolding set_erase_pos_def by (simp add: sorted_wrt_append)
    moreover have "set (set_erase_pos (d_set s) pos) \<subseteq> U"
      using su by (auto simp: set_erase_pos_def dest: in_set_takeD in_set_dropD)
    ultimately show ?thesis using o2 Pair st' by (simp add: ordered_in_def erase_pos_ts_def)
  next
    case (EraseKey k)
    from rec EraseKey su have "insert k (set (d_set s)) \<subseteq> U" by simp
    then have t: "transp_on (insert k (set (d_set s))) BoxInTransitMoreLoad"
      by (rule transp_on_subset [OF tr])
    from erase_key_ts_equiv [OF so t]
    have "d_set (fst (erase_key_ts s k)) = filter (\<lambda>e. \<not> equiv_transit e k) (d_set s)" by simp
    with so su have "ordered_in U (fst (erase_key_ts s k))"
      by (auto simp: ordered_in_def sorted_wrt_filter)
    with ap o2 Pair EraseKey show ?thesis by auto
  next
    case Clear
    with ap o2 Pair show ?thesis by (auto simp: ordered_in_def clear_ts_def)
  next
    case Swap
    with ap o1 o2 Pair show ?thesis by (auto simp: ordered_in_def swap_ts_def Let_def)
  qed
qed

text \<open>
  Every set a run of operations reaches from the empty sets is in comparator order, when
  the comparator is transitive on the records the operations are called with.
\<close>

lemma ordered_in_run_ops:
  assumes "transp_on U BoxInTransitMoreLoad"
  shows "\<forall>x \<in> set ops. op_records x \<subseteq> U \<Longrightarrow> ordered_in U (fst st) \<Longrightarrow> ordered_in U (snd st) \<Longrightarrow>
     run_ops st ops = Inr st' \<Longrightarrow> ordered_in U (fst st') \<and> ordered_in U (snd st')"
proof (induction ops arbitrary: st)
  case Nil
  then show ?case by simp
next
  case (Cons x xs)
  from Cons.prems(4) obtain st1 where st1: "apply_op st x = Inr st1" "run_ops st1 xs = Inr st'"
    by (auto split: sum.splits)
  from Cons.prems(1) have r: "op_records x \<subseteq> U" "\<forall>x \<in> set xs. op_records x \<subseteq> U" by simp_all
  from ordered_in_apply_op [OF assms r(1) Cons.prems(2,3) st1(1)]
  have "ordered_in U (fst st1)" "ordered_in U (snd st1)" by simp_all
  from Cons.IH [OF r(2) this st1(2)] show ?case .
qed

lemma ordered_in_empty: "ordered_in U TransitSet_empty"
  by (simp add: ordered_in_def TransitSet_empty_def)

subsection \<open>The cached sum of a TransitSet\<close>

text \<open>Over uniform records every operation keeps the cached sums right.\<close>

lemma sum_ok_apply_op:
  assumes rec: "\<forall>r \<in> op_records x. uniform_load r"
    and o1: "ordered_in (Collect uniform_load) (fst st)"
    and s1: "sum_ok (fst st)" and s2: "sum_ok (snd st)"
    and ap: "apply_op st x = Inr st'"
  shows "sum_ok (fst st') \<and> sum_ok (snd st')"
proof (cases st)
  case (Pair s other)
  show ?thesis
  proof (cases x)
    case (Insert y)
    with ap s1 s2 Pair show ?thesis by (auto simp: sum_ok_insert)
  next
    case (InsertRange ys)
    with ap s1 s2 Pair show ?thesis by (auto split: sum.splits dest: sum_ok_insert_range)
  next
    case (EraseIter pos)
    with ap s1 s2 Pair show ?thesis by (auto split: if_splits simp: sum_ok_erase_pos)
  next
    case (EraseKey k)
    from o1 Pair have "sorted_wrt BoxInTransitMoreLoad (d_set s)"
      "\<forall>e \<in> set (d_set s). uniform_load e" by (auto simp: ordered_in_def)
    moreover from rec EraseKey have "uniform_load k" by simp
    moreover from s1 Pair have "sum_ok s" by simp
    ultimately have "sum_ok (fst (erase_key_ts s k))"
      using sum_ok_erase_key_uniform by blast
    with ap s2 Pair EraseKey show ?thesis by auto
  next
    case Clear
    with ap s2 Pair show ?thesis by (auto simp: sum_ok_clear)
  next
    case Swap
    with ap s1 s2 Pair sum_ok_swap [of s other] show ?thesis by auto
  qed
qed

lemma sum_ok_run_ops:
  "\<forall>x \<in> set ops. \<forall>r \<in> op_records x. uniform_load r \<Longrightarrow>
     ordered_in (Collect uniform_load) (fst st) \<Longrightarrow> ordered_in (Collect uniform_load) (snd st) \<Longrightarrow>
     sum_ok (fst st) \<Longrightarrow> sum_ok (snd st) \<Longrightarrow> run_ops st ops = Inr st' \<Longrightarrow>
     sum_ok (fst st') \<and> sum_ok (snd st')"
proof (induction ops arbitrary: st)
  case Nil
  then show ?case by simp
next
  case (Cons x xs)
  have tr: "transp_on (Collect uniform_load) BoxInTransitMoreLoad"
    by (rule MoreLoad_transp_uniform) simp
  from Cons.prems(6) obtain st1 where st1: "apply_op st x = Inr st1" "run_ops st1 xs = Inr st'"
    by (auto split: sum.splits)
  from Cons.prems(1) have r: "\<forall>r \<in> op_records x. uniform_load r"
    "\<forall>x \<in> set xs. \<forall>r \<in> op_records x. uniform_load r" by simp_all
  from r(1) have sub: "op_records x \<subseteq> Collect uniform_load" by blast
  from ordered_in_apply_op [OF tr sub Cons.prems(2,3) st1(1)]
  have o: "ordered_in (Collect uniform_load) (fst st1)" "ordered_in (Collect uniform_load) (snd st1)"
    by simp_all
  from sum_ok_apply_op [OF r(1) Cons.prems(2,4,5) st1(1)]
  have s: "sum_ok (fst st1)" "sum_ok (snd st1)" by simp_all
  from Cons.IH [OF r(2) o s st1(2)] show ?case .
qed

text \<open>
  C2. For every pair of TransitSets reached from empty sets by a sequence of single and
  range inserts, erases by iterator and by key, clears and swaps that runs to its end,
  over records of the uniform load model (the load of a record is the cell count of its
  box, the only loads the balancer supports), \<open>getSumLoad()\<close> of either set is the sum
  \<open>computeLoad\<close> takes over its elements.
\<close>

theorem TransitSet_sum_invariant:
  assumes "\<forall>x \<in> set ops. \<forall>r \<in> op_records x. uniform_load r"
    and "run_ops (TransitSet_empty, TransitSet_empty) ops = Inr (s, other)"
  shows "getSumLoad s = computeLoad_ts s \<and> getSumLoad other = computeLoad_ts other"
proof -
  have "ordered_in (Collect uniform_load) (fst (TransitSet_empty, TransitSet_empty))"
    "ordered_in (Collect uniform_load) (snd (TransitSet_empty, TransitSet_empty))"
    "sum_ok (fst (TransitSet_empty, TransitSet_empty))"
    "sum_ok (snd (TransitSet_empty, TransitSet_empty))"
    by (simp_all add: sum_ok_empty ordered_in_empty)
  from sum_ok_run_ops [OF assms(1) this assms(2)] show ?thesis by (simp add: sum_ok_def)
qed

lemma ex_uniform: "uniform_load ex_u1" "uniform_load ex_u2" "uniform_load ex_u3"
  by (simp_all add: uniform_load_def ex_sizes ex_loads)

text \<open>A run over the uniform records, with a duplicate insert, two swaps and both erases.\<close>

lemma ex_run_uniform:
  "run_ops (TransitSet_empty, TransitSet_empty)
     [Insert ex_u2, InsertRange [ex_u1, ex_u3], Insert ex_u2, EraseKey ex_u1, Swap,
      Insert ex_u1, Swap, EraseIter 0, Swap] =
   Inr (\<lparr>d_set = [ex_u1], d_sumload = 6\<rparr>, \<lparr>d_set = [ex_u3], d_sumload = 4\<rparr>)"
  by (simp add: TransitSet_empty_def insert_ts_def insert_range_ts_def erase_key_ts_def
      set_erase_key_def set_lower_bound_def set_upper_bound_def
      erase_pos_ts_def swap_ts_def size_ts_def set_erase_pos_def Let_def ex_cmp ex_loads)

theorem TransitSet_sum_invariant_witness:
  "uniform_load ex_u1 \<and> uniform_load ex_u2 \<and> uniform_load ex_u3 \<and>
   run_ops (TransitSet_empty, TransitSet_empty)
     [Insert ex_u2, InsertRange [ex_u1, ex_u3], Insert ex_u2, EraseKey ex_u1, Swap,
      Insert ex_u1, Swap, EraseIter 0, Swap] =
   Inr (\<lparr>d_set = [ex_u1], d_sumload = 6\<rparr>, \<lparr>d_set = [ex_u3], d_sumload = 4\<rparr>) \<and>
   getSumLoad \<lparr>d_set = [ex_u1], d_sumload = 6\<rparr> = computeLoad_ts \<lparr>d_set = [ex_u1], d_sumload = 6\<rparr> \<and>
   getSumLoad \<lparr>d_set = [ex_u3], d_sumload = 4\<rparr> = computeLoad_ts \<lparr>d_set = [ex_u3], d_sumload = 4\<rparr>"
proof -
  have rec: "\<forall>x \<in> set [Insert ex_u2, InsertRange [ex_u1, ex_u3], Insert ex_u2, EraseKey ex_u1,
      Swap, Insert ex_u1, Swap, EraseIter 0, Swap]. \<forall>r \<in> op_records x. uniform_load r"
    by (simp add: ex_uniform)
  from TransitSet_sum_invariant [OF rec ex_run_uniform] ex_uniform ex_run_uniform
  show ?thesis by simp
qed

subsection \<open>The comparison functor\<close>

text \<open>
  The functor on any two records: it looks at the loads where the boxes differ in cell
  count, and at the box ids where they do not.
\<close>

lemma BoxInTransitMoreLoad_guard:
  "BoxInTransitMoreLoad a b \<longleftrightarrow>
     (size_box (d_box a) \<noteq> size_box (d_box b) \<and> d_boxload a > d_boxload b) \<or>
     (size_box (d_box a) = size_box (d_box b) \<and>
        BoxId_less (getBoxId (d_box a)) (getBoxId (d_box b)))"
  by (auto simp: BoxInTransitMoreLoad_def getBox_def)

text \<open>
  C1. For every pair of BoxInTransit records \<open>a\<close> and \<open>b\<close> of the uniform load model
  (the load of a record is the cell count of its box), \<open>BoxInTransitMoreLoad(a, b)\<close>
  holds iff the load of \<open>a\<close> is larger, or the loads are equal and the box id of \<open>a\<close> is
  the smaller: larger load first, equal loads by box id ascending.
\<close>

theorem BoxInTransitMoreLoad_ordering:
  assumes "uniform_load a" "uniform_load b"
  shows "BoxInTransitMoreLoad a b \<longleftrightarrow>
           d_boxload a > d_boxload b \<or>
           (d_boxload a = d_boxload b \<and> BoxId_less (getBoxId (d_box a)) (getBoxId (d_box b)))"
  using assms by (auto simp: BoxInTransitMoreLoad_def getBox_def uniform_load_def)

text \<open>
  The record of 6 cells goes before the one of 4; of the two records of 4 cells the one
  with the smaller id goes first.
\<close>

theorem BoxInTransitMoreLoad_ordering_witness:
  "uniform_load ex_u1 \<and> uniform_load ex_u2 \<and> uniform_load ex_u3 \<and>
   BoxInTransitMoreLoad ex_u1 ex_u2 \<and> d_boxload ex_u1 > d_boxload ex_u2 \<and>
   BoxInTransitMoreLoad ex_u2 ex_u3 \<and> d_boxload ex_u2 = d_boxload ex_u3 \<and>
   BoxId_less (getBoxId (d_box ex_u2)) (getBoxId (d_box ex_u3)) \<and>
   \<not> BoxInTransitMoreLoad ex_u3 ex_u2"
proof -
  have id: "BoxId_less (getBoxId (d_box ex_u2)) (getBoxId (d_box ex_u3))"
    "\<not> BoxId_less (getBoxId (d_box ex_u3)) (getBoxId (d_box ex_u2))"
    by (simp_all add: ex_defs make_transit_def make_box_def getBoxId_def BoxId_less_def)
  from BoxInTransitMoreLoad_ordering [OF ex_uniform(1,2)]
    BoxInTransitMoreLoad_ordering [OF ex_uniform(2,3)]
    BoxInTransitMoreLoad_ordering [OF ex_uniform(3,2)] ex_uniform id
  show ?thesis by (simp add: ex_loads)
qed

end
